theory Spec2Isabelle
  imports
    Complex_Main
    "HOL-Library.Char_ord"
    "HOL-Library.List_Lexorder"
    "HOL-Library.Product_Lexorder"
begin

section \<open>Overview\<close>

text \<open>
  An embedding of the scanner of \<^verbatim>\<open>portable_seqmanager3/app/backend/scanner.py\<close>: the walk
  that builds the metadata table, the header sniffer and the extension parser, the two
  hash routines, the three tiers of the duplicate detector, the mismatch reporter and the
  erasability rules, composed as \<^verbatim>\<open>scan_directory\<close> composes them. Every function keeps
  its name and the order of its branches. What Python raises is a value of type \<open>error\<close>;
  dictionaries are association lists in insertion order; the file system, the hash
  functions and what a run measures are arguments. Integers are those of a 64-bit
  CPython, where a byte count has to fit a signed 64-bit index.
\<close>

section \<open>Python strings and bytes\<close>

text \<open>
  Strings and byte strings of the scanner are lists of 8-bit characters. Case mapping
  (\<^verbatim>\<open>str.upper\<close>, \<^verbatim>\<open>str.lower\<close>, \<^verbatim>\<open>re.I\<close>) acts on the ASCII letters only; file names
  are taken to be ASCII.
\<close>

definition lower_char :: "char \<Rightarrow> char" where
  "lower_char c =
     (case map_of (zip ''ABCDEFGHIJKLMNOPQRSTUVWXYZ'' ''abcdefghijklmnopqrstuvwxyz'') c of
        Some l \<Rightarrow> l | None \<Rightarrow> c)"

definition upper_char :: "char \<Rightarrow> char" where
  "upper_char c =
     (case map_of (zip ''abcdefghijklmnopqrstuvwxyz'' ''ABCDEFGHIJKLMNOPQRSTUVWXYZ'') c of
        Some u \<Rightarrow> u | None \<Rightarrow> c)"

definition lower :: "string \<Rightarrow> string" where
  "lower s = map lower_char s"

definition upper :: "string \<Rightarrow> string" where
  "upper s = map upper_char s"

definition startswith :: "string \<Rightarrow> string \<Rightarrow> bool" where
  "startswith s pre = (take (length pre) s = pre)"

definition endswith :: "string \<Rightarrow> string \<Rightarrow> bool" where
  "endswith s suf = (length suf \<le> length s \<and> drop (length s - length suf) s = suf)"

text \<open>\<^verbatim>\<open>pat in s\<close> for strings: \<open>pat\<close> occurs in \<open>s\<close> as a contiguous block.\<close>

fun contains :: "string \<Rightarrow> string \<Rightarrow> bool" where
  "contains [] pat = (pat = [])"
| "contains (c # cs) pat = (startswith (c # cs) pat \<or> contains cs pat)"

text \<open>\<^verbatim>\<open>s.split(sep)\<close> for a one-character separator: never the empty list.\<close>

fun split_on :: "char \<Rightarrow> string \<Rightarrow> string list" where
  "split_on sep [] = [[]]"
| "split_on sep (c # cs) =
     (if c = sep then [] # split_on sep cs
      else (case split_on sep cs of w # ws \<Rightarrow> (c # w) # ws | [] \<Rightarrow> [[c]]))"

text \<open>\<^verbatim>\<open>sep.join(parts)\<close>.\<close>

fun join :: "string \<Rightarrow> string list \<Rightarrow> string" where
  "join sep [] = []"
| "join sep [w] = w"
| "join sep (w # ws) = w @ sep @ join sep ws"

section \<open>Paths (pathlib)\<close>

text \<open>
  A path is its string. \<open>path_name\<close> is \<^verbatim>\<open>Path(p).name\<close>, the last component, and \<open>suffixes\<close> is
  \<^verbatim>\<open>PurePath.suffixes\<close>: nothing for a name that ends with a dot, otherwise the name
  without its leading dots is split at the dots and every part but the first is a suffix.
\<close>

definition path_name :: "string \<Rightarrow> string" where
  "path_name p = rev (takeWhile (\<lambda>c. c \<noteq> CHR ''/'') (rev p))"

definition suffixes :: "string \<Rightarrow> string list" where
  "suffixes p =
     (let name = path_name p in
      if endswith name ''.'' then []
      else map (\<lambda>s. CHR ''.'' # s) (tl (split_on CHR ''.'' (dropWhile (\<lambda>c. c = CHR ''.'') name))))"

section \<open>The file system seen by the scan\<close>

text \<open>
  The tree is not changed while it is scanned. A regular file has its bytes, its
  modification time, two flags, whether \<^verbatim>\<open>open\<close> succeeds on it and whether reading
  from it succeeds, and the largest byte count for which a read of it finds the memory of
  its buffer; a buffer of 64 KiB is always found. The files are stored under their
  resolved paths; a path with no file behind it (a dangling link, a file that is gone, a
  file in a directory that cannot be searched) fails every operation, \<^verbatim>\<open>stat\<close> included.

  A directory entry is a non-directory, named by the joined path \<^verbatim>\<open>d / fn\<close> of the entry,
  a directory with its entries in listing order, or a directory that \<^verbatim>\<open>os.walk\<close> lists
  in its parent but yields nothing for (its listing fails, or it is a symbolic link,
  which \<^verbatim>\<open>os.walk\<close> does not follow).

  Three functions of \<^verbatim>\<open>pathlib\<close> are given with the file system. \<open>expanduser\<close> is
  \<^verbatim>\<open>Path.expanduser\<close>, which raises \<^verbatim>\<open>RuntimeError\<close> when the home directory of a leading
  \<^verbatim>\<open>~\<close> cannot be found. \<open>resolve\<close> is \<^verbatim>\<open>Path.resolve\<close>, the absolute path with the
  symbolic links followed; up to Python 3.12 it raises \<^verbatim>\<open>RuntimeError\<close> on a loop of
  symbolic links, and \<^verbatim>\<open>ValueError\<close> on a null byte. \<open>root_node\<close> is what is found at
  a resolved path: \<open>Inr None\<close> when \<^verbatim>\<open>Path.exists\<close> answers no, \<open>Inl e\<close> when it raises
  \<open>e\<close> (a \<^verbatim>\<open>stat\<close> error other than those it takes for absence: a name that is too
  long, a directory that cannot be searched).
\<close>

datatype error =
  FileNotFoundError | OSError | RuntimeError | ValueError | OverflowError | MemoryError
  | StopIteration

record regfile =
  content :: string
  mtime :: int
  open_ok :: bool
  read_ok :: bool
  buffer_max :: int

datatype node = File string | Dir "node list" | Opaque

record filesystem =
  expanduser :: "string \<Rightarrow> error + string"
  resolve :: "string \<Rightarrow> error + string"
  root_node :: "string \<Rightarrow> error + node option"
  inode :: "string \<Rightarrow> regfile option"

text \<open>\<^verbatim>\<open>p.exists()\<close>.\<close>

definition exists :: "filesystem \<Rightarrow> string \<Rightarrow> error + bool" where
  "exists fs p =
     (case root_node fs p of
        Inl e \<Rightarrow> Inl e
      | Inr None \<Rightarrow> Inr False
      | Inr (Some _) \<Rightarrow> Inr True)"

text \<open>\<^verbatim>\<open>p.stat()\<close>: size and modification time.\<close>

definition stat :: "filesystem \<Rightarrow> string \<Rightarrow> error + (nat \<times> int)" where
  "stat fs p =
     (case inode fs p of
        None \<Rightarrow> Inl OSError
      | Some f \<Rightarrow> Inr (length (content f), mtime f))"

text \<open>\<^verbatim>\<open>p.open("rb")\<close>.\<close>

definition open_rb :: "filesystem \<Rightarrow> string \<Rightarrow> error + regfile" where
  "open_rb fs p =
     (case inode fs p of
        None \<Rightarrow> Inl OSError
      | Some f \<Rightarrow> if open_ok f then Inr f else Inl OSError)"

text \<open>
  \<^verbatim>\<open>f.read(n)\<close> of a buffered reader with the handle at offset \<open>pos\<close>. The count has to
  fit a signed 64-bit index (\<^verbatim>\<open>OverflowError\<close>) and to be \<open>-1\<close> or more
  (\<^verbatim>\<open>ValueError\<close>). A read of no bytes returns the empty byte string without touching
  the file, and \<open>-1\<close> reads to the end. Any other read first takes a buffer of \<open>n\<close>
  bytes: a byte string has a header of 33 bytes, so the 33 largest counts are refused
  (\<^verbatim>\<open>OverflowError\<close>), and a count for which no memory is found gives \<^verbatim>\<open>MemoryError\<close>.
\<close>

definition read :: "regfile \<Rightarrow> nat \<Rightarrow> int \<Rightarrow> error + string" where
  "read f pos n =
     (if n < - (2 ^ 63) \<or> 2 ^ 63 \<le> n then Inl OverflowError
      else if n < - 1 then Inl ValueError
      else if n = 0 then Inr []
      else if n = - 1 then (if \<not> read_ok f then Inl OSError else Inr (drop pos (content f)))
      else if 2 ^ 63 - 33 \<le> n then Inl OverflowError
      else if max 65536 (buffer_max f) < n then Inl MemoryError
      else if \<not> read_ok f then Inl OSError
      else Inr (take (nat n) (drop pos (content f))))"

text \<open>
  \<^verbatim>\<open>os.walk(top)\<close>, top-down, errors ignored: one item per directory that can be listed,
  holding the non-directory entries of that directory, each as \<^verbatim>\<open>d / fn\<close>; then the
  subdirectories in listing order. A top that is not a directory yields nothing.
\<close>

fun files_of :: "node list \<Rightarrow> string list" where
  "files_of [] = []"
| "files_of (File p # ns) = p # files_of ns"
| "files_of (_ # ns) = files_of ns"

fun walk :: "node \<Rightarrow> string list list" where
  "walk (Dir ns) = files_of ns # concat (map walk ns)"
| "walk (File p) = []"
| "walk Opaque = []"

definition os_walk :: "filesystem \<Rightarrow> string \<Rightarrow> string list list" where
  "os_walk fs p = (case root_node fs p of Inr (Some n) \<Rightarrow> walk n | _ \<Rightarrow> [])"

section \<open>Normalization and bio sets\<close>

definition BIO_CONTAINERS :: "string set" where
  "BIO_CONTAINERS = {''GZIP'', ''BGZF''}"

definition BIO_LOGICAL :: "string set" where
  "BIO_LOGICAL = {''BAM'', ''CRAM'', ''BCF'', ''VCF'', ''SAM'', ''FASTQ'', ''FASTA''}"

definition norm_container :: "string \<Rightarrow> string" where
  "norm_container s =
     (let s = upper s in
      case map_of [(''GZ'', ''GZIP''), (''GZIP'', ''GZIP''), (''BGZ'', ''BGZF''), (''BGZF'', ''BGZF'')] s of
        Some v \<Rightarrow> v | None \<Rightarrow> s)"

definition logical_map :: "(string \<times> string) list" where
  "logical_map =
     [(''bam'', ''BAM''), (''cram'', ''CRAM''), (''bcf'', ''BCF''), (''vcf'', ''VCF''),
      (''sam'', ''SAM''), (''fastq'', ''FASTQ''), (''fq'', ''FASTQ''),
      (''fasta'', ''FASTA''), (''fa'', ''FASTA'')]"

text \<open>\<^verbatim>\<open>_normalize_extensions(p)\<close>: \<open>(ext_full, ext_container, ext_logical)\<close>.\<close>

definition normalize_extensions :: "string \<Rightarrow> string \<times> string \<times> string" where
  "normalize_extensions p =
     (let sufs = map (\<lambda>s. lower (dropWhile (\<lambda>c. c = CHR ''.'') s)) (suffixes p);
          ext_full = join ''.'' sufs;
          container =
            (if sufs = [] then ''''
             else if last sufs \<in> {''gz'', ''gzip''} then ''GZIP''
             else if last sufs \<in> {''bgz'', ''bgzf''} then ''BGZF''
             else '''');
          logical0 =
            (if sufs = [] \<or> container \<noteq> '''' then ''''
             else if last sufs \<in> {''bam'', ''cram'', ''bcf'', ''vcf'', ''sam'', ''fastq'', ''fq'', ''fasta'', ''fa''}
               then (case map_of logical_map (last sufs) of Some v \<Rightarrow> v | None \<Rightarrow> upper (last sufs))
             else '''');
          logical =
            (if container \<noteq> '''' \<and> length sufs \<ge> 2
               then (case map_of logical_map (sufs ! (length sufs - 2)) of Some v \<Rightarrow> v | None \<Rightarrow> logical0)
             else logical0)
      in (ext_full, norm_container container, logical))"

section \<open>Header sniffer\<close>

text \<open>
  \<^verbatim>\<open>sniff_header\<close>: the first 1024 bytes decide; a failing \<^verbatim>\<open>open\<close> or \<^verbatim>\<open>read\<close> is caught
  and gives \<^verbatim>\<open>UNKNOWN\<close>.
\<close>

definition sniff_header :: "filesystem \<Rightarrow> string \<Rightarrow> string" where
  "sniff_header fs p =
     (case open_rb fs p of
        Inl _ \<Rightarrow> ''UNKNOWN''
      | Inr f \<Rightarrow>
         (case read f 0 1024 of
            Inl _ \<Rightarrow> ''UNKNOWN''
          | Inr head \<Rightarrow>
              if length head \<ge> 3 \<and> head ! 0 = CHR 0x1F \<and> head ! 1 = CHR 0x8B \<and> head ! 2 = CHR 0x08
                then ''GZIP''
              else if take 4 head = [CHR ''B'', CHR ''A'', CHR ''M'', CHR 0x01] then ''BAM''
              else if take 4 head = ''CRAM'' then ''CRAM''
              else if take 3 head = ''BCF'' then ''BCF''
              else if contains (take 256 head) ''##fileformat=VCF'' then ''VCF''
              else if startswith head [CHR ''@'', CHR ''H'', CHR ''D'', CHR 0x09] then ''SAM''
              else if take 1 head = ''@'' then ''FASTQ''
              else if take 1 head = ''>'' then ''FASTA''
              else ''UNKNOWN''))"

section \<open>The metadata table\<close>

record FileMeta =
  m_path :: string
  m_size :: nat
  m_mtime_ns :: int
  m_header_type :: string
  m_ext_full :: string
  m_ext_container :: string
  m_ext_logical :: string

record scanner =
  strict :: bool
  chunk :: int
  cancel :: bool
  include_non_bio_mismatches :: bool

text \<open>
  The body of the \<^verbatim>\<open>try\<close> in the walk loop of \<^verbatim>\<open>scan_directory\<close>: \<^verbatim>\<open>stat\<close>, sniff,
  normalize, build the record. Only \<^verbatim>\<open>stat\<close> can raise here.
\<close>

definition file_meta :: "filesystem \<Rightarrow> string \<Rightarrow> error + FileMeta" where
  "file_meta fs p =
     (case stat fs p of
        Inl e \<Rightarrow> Inl e
      | Inr (sz, mt) \<Rightarrow>
          (let header = sniff_header fs p;
               (ext_full, ext_container, ext_logical) = normalize_extensions p
           in Inr \<lparr> m_path = p, m_size = sz, m_mtime_ns = mt, m_header_type = header,
                    m_ext_full = upper ext_full, m_ext_container = ext_container,
                    m_ext_logical = ext_logical \<rparr>))"

text \<open>
  The inner loop over the files of one directory: a set cancel flag leaves the loop;
  \<^verbatim>\<open>p = (d / fn).resolve()\<close> stands before the \<^verbatim>\<open>try\<close>, so what it raises ends the scan;
  a raising body is passed over (\<^verbatim>\<open>except Exception: pass\<close>).
\<close>

fun scan_files ::
  "scanner \<Rightarrow> filesystem \<Rightarrow> string list \<Rightarrow> FileMeta list \<Rightarrow> error + FileMeta list" where
  "scan_files sc fs [] metas = Inr metas"
| "scan_files sc fs (fn # fns) metas =
     (if cancel sc then Inr metas
      else (case resolve fs fn of
              Inl e \<Rightarrow> Inl e
            | Inr p \<Rightarrow>
                scan_files sc fs fns
                  (case file_meta fs p of Inr m \<Rightarrow> metas @ [m] | Inl _ \<Rightarrow> metas)))"

section \<open>Fingerprints\<close>

text \<open>
  The hash functions of \<^verbatim>\<open>hashlib\<close> are parameters: \<open>md5\<close> and \<open>sha256\<close> map the bytes
  fed to the hash object, in the order of the \<^verbatim>\<open>update\<close> calls, to the hex digest.

  \<open>sampled_feed\<close> is what \<^verbatim>\<open>sampled_fingerprint\<close> feeds to MD5: the first 64 KiB, a
  middle window when the size is at least 196608, a last window when it is at least 65536.
\<close>

definition sampled_feed :: "filesystem \<Rightarrow> string \<Rightarrow> error + string" where
  "sampled_feed fs p =
     (case stat fs p of
        Inl e \<Rightarrow> Inl e
      | Inr (S, _) \<Rightarrow>
     (case open_rb fs p of
        Inl e \<Rightarrow> Inl e
      | Inr f \<Rightarrow>
     (case read f 0 65536 of
        Inl e \<Rightarrow> Inl e
      | Inr w1 \<Rightarrow>
     (case (if S \<ge> 196608 then read f (S div 2 - 32768) 65536 else Inr []) of
        Inl e \<Rightarrow> Inl e
      | Inr w2 \<Rightarrow>
     (case (if S \<ge> 65536 then read f (S - 65536) 65536 else Inr []) of
        Inl e \<Rightarrow> Inl e
      | Inr w3 \<Rightarrow> Inr (w1 @ w2 @ w3))))))"

definition sampled_fingerprint :: "(string \<Rightarrow> string) \<Rightarrow> filesystem \<Rightarrow> string \<Rightarrow> error + string" where
  "sampled_fingerprint md5 fs p =
     (case sampled_feed fs p of Inl e \<Rightarrow> Inl e | Inr bs \<Rightarrow> Inr (md5 bs))"

text \<open>
  The loop of \<^verbatim>\<open>stream_hash\<close>: read \<open>n\<close> bytes, stop at an empty chunk, feed the chunk
  to the hash otherwise.
\<close>

function stream_feed :: "regfile \<Rightarrow> int \<Rightarrow> nat \<Rightarrow> error + string" where
  "stream_feed f n pos =
     (case read f pos n of
        Inl e \<Rightarrow> Inl e
      | Inr bs \<Rightarrow>
          if bs = [] then Inr []
          else (case stream_feed f n (pos + length bs) of
                  Inl e \<Rightarrow> Inl e
                | Inr rest \<Rightarrow> Inr (bs @ rest)))"
  by pat_completeness auto
termination
  by (relation "measure (\<lambda>(f, n, pos). length (content f) - pos)")
     (auto simp: read_def split: if_splits)

declare stream_feed.simps [simp del]

definition stream_hash :: "(string \<Rightarrow> string) \<Rightarrow> scanner \<Rightarrow> filesystem \<Rightarrow> string \<Rightarrow> error + string" where
  "stream_hash sha256 sc fs p =
     (case open_rb fs p of
        Inl e \<Rightarrow> Inl e
      | Inr f \<Rightarrow>
          (case stream_feed f (chunk sc) 0 of Inl e \<Rightarrow> Inl e | Inr bs \<Rightarrow> Inr (sha256 bs)))"

section \<open>Duplicate detection\<close>

text \<open>
  A Python dictionary of lists, in insertion order of its keys:
  \<^verbatim>\<open>d.setdefault(k, []).append(v)\<close>.
\<close>

fun setdefault_append :: "'k \<Rightarrow> 'v \<Rightarrow> ('k \<times> 'v list) list \<Rightarrow> ('k \<times> 'v list) list" where
  "setdefault_append k v [] = [(k, [v])]"
| "setdefault_append k v ((k', vs) # d) =
     (if k' = k then (k', vs @ [v]) # d else (k', vs) # setdefault_append k v d)"

text \<open>Tier 0: files of positive size, by size.\<close>

definition by_size :: "FileMeta list \<Rightarrow> (nat \<times> FileMeta list) list" where
  "by_size metas =
     foldl (\<lambda>d m. if m_size m > 0 then setdefault_append (m_size m) m d else d) [] metas"

text \<open>Tier 1: the members of the size buckets with two files or more, by size and sampled
  fingerprint; a failing fingerprint is the key \<^verbatim>\<open>"ERR"\<close>.\<close>

definition fp_or_ERR :: "(string \<Rightarrow> string) \<Rightarrow> filesystem \<Rightarrow> FileMeta \<Rightarrow> string" where
  "fp_or_ERR md5 fs m =
     (case sampled_fingerprint md5 fs (m_path m) of Inr fp \<Rightarrow> fp | Inl _ \<Rightarrow> ''ERR'')"

definition by_fp ::
  "(string \<Rightarrow> string) \<Rightarrow> filesystem \<Rightarrow> (nat \<times> FileMeta list) list
     \<Rightarrow> ((nat \<times> string) \<times> FileMeta list) list" where
  "by_fp md5 fs sized =
     foldl (\<lambda>d (sz, grp).
              if length grp < 2 then d
              else foldl (\<lambda>d m. setdefault_append (sz, fp_or_ERR md5 fs m) m d) d grp)
       [] sized"

text \<open>Tier 2: the members of the fingerprint buckets with two files or more, by streaming
  digest; a file whose digest fails is left out.\<close>

definition groups ::
  "(string \<Rightarrow> string) \<Rightarrow> scanner \<Rightarrow> filesystem \<Rightarrow> ((nat \<times> string) \<times> FileMeta list) list
     \<Rightarrow> (string \<times> FileMeta list) list" where
  "groups sha256 sc fs fingerprinted =
     foldl (\<lambda>g (k, bucket).
              if length bucket < 2 then g
              else foldl (\<lambda>g m. case stream_hash sha256 sc fs (m_path m) of
                                   Inl _ \<Rightarrow> g
                                 | Inr sha \<Rightarrow> setdefault_append sha m g) g bucket)
       [] fingerprinted"

record DuplicateGroup =
  d_sha256 :: string
  d_total_size :: nat
  d_count :: nat
  d_files :: "string list"

text \<open>The groups with two members or more, largest \<open>(total_size, count)\<close> first; the
  sort is stable, so \<^verbatim>\<open>reverse=True\<close> keeps equal keys in their order.\<close>

definition dup_out :: "(string \<times> FileMeta list) list \<Rightarrow> DuplicateGroup list" where
  "dup_out gs =
     rev (sort_key (\<lambda>d. (d_total_size d, d_count d))
       (rev (map (\<lambda>(sha, grp).
                    \<lparr> d_sha256 = sha, d_total_size = m_size (hd grp) * length grp,
                      d_count = length grp, d_files = sort (map m_path grp) \<rparr>)
               (filter (\<lambda>(sha, grp). \<not> length grp < 2) gs))))"

definition duplicate_detector ::
  "(string \<Rightarrow> string) \<Rightarrow> (string \<Rightarrow> string) \<Rightarrow> scanner \<Rightarrow> filesystem \<Rightarrow> FileMeta list
     \<Rightarrow> DuplicateGroup list" where
  "duplicate_detector md5 sha256 sc fs metas =
     dup_out (groups sha256 sc fs (by_fp md5 fs (by_size metas)))"

section \<open>Mismatch reporter\<close>

record MismatchRecord =
  mm_path :: string
  mm_extension :: string
  mm_extension_container :: string
  mm_extension_logical :: string
  mm_header_type :: string

text \<open>The body of the mismatch loop for one file: the record it appends, if any.\<close>

definition mismatch_of :: "scanner \<Rightarrow> FileMeta \<Rightarrow> MismatchRecord option" where
  "mismatch_of sc m =
     (let header = upper (m_header_type m);
          ext_container = norm_container (m_ext_container m);
          ext_logical = upper (m_ext_logical m)
      in if header \<in> {''UNKNOWN'', ''''} then None
         else
           let header_is_bio = (header \<in> BIO_LOGICAL \<or> header \<in> BIO_CONTAINERS);
               name_is_bio = (ext_logical \<in> BIO_LOGICAL \<or> ext_container \<in> BIO_CONTAINERS)
           in if \<not> include_non_bio_mismatches sc \<and> \<not> (header_is_bio \<or> name_is_bio) then None
              else
                let is_mismatch =
                      (if header \<in> BIO_CONTAINERS then ext_container \<notin> BIO_CONTAINERS
                       else if ext_container \<in> BIO_CONTAINERS then True
                       else if header \<noteq> '''' then header \<noteq> ext_logical else False)
                in if is_mismatch
                   then Some \<lparr> mm_path = m_path m, mm_extension = m_ext_full m,
                               mm_extension_container = ext_container,
                               mm_extension_logical = ext_logical, mm_header_type = header \<rparr>
                   else None)"

definition mismatch_reporter :: "scanner \<Rightarrow> FileMeta list \<Rightarrow> MismatchRecord list" where
  "mismatch_reporter sc metas = List.map_filter (mismatch_of sc) metas"

section \<open>Erasable intermediates\<close>

definition PREFER_SRA_OVER_FASTQ :: bool where
  "PREFER_SRA_OVER_FASTQ = False"

definition ALLOW_SAM_REGEN :: bool where
  "ALLOW_SAM_REGEN = True"

record FileRec =
  r_path :: string
  r_size :: nat
  r_header_type :: string
  r_extension :: string
  r_extension_container :: string
  r_extension_logical :: string

definition file_rec :: "FileMeta \<Rightarrow> FileRec" where
  "file_rec m =
     \<lparr> r_path = m_path m, r_size = m_size m, r_header_type = m_header_type m,
       r_extension = m_ext_full m, r_extension_container = m_ext_container m,
       r_extension_logical = m_ext_logical m \<rparr>"

record ErasableCandidate =
  c_path :: string
  c_reason :: string
  c_fidelity :: string
  c_depends_on :: "string list"
  c_regen_cmd :: string

definition is_sep :: "char \<Rightarrow> bool" where
  "is_sep c = (c = CHR ''.'' \<or> c = CHR ''-'' \<or> c = CHR ''_'')"

text \<open>\<^verbatim>\<open>re.split(r"[\.\-_]+", name)\<close>: split at the maximal runs of separators.\<close>

function re_split :: "string \<Rightarrow> string list" where
  "re_split [] = [[]]"
| "re_split (c # cs) =
     (if is_sep c then [] # re_split (dropWhile is_sep cs)
      else (case re_split cs of w # ws \<Rightarrow> (c # w) # ws | [] \<Rightarrow> [[c]]))"
  by pat_completeness auto
termination
  by (relation "measure length") (auto simp: le_imp_less_Suc length_dropWhile_le)

definition TOKENS :: "string list" where
  "TOKENS = [''r1'', ''r2'', ''read1'', ''read2'', ''paired'', ''unpaired'', ''trimmed'',
             ''sorted'', ''unsorted'', ''collated'']"

text \<open>
  \<^verbatim>\<open>_TOKEN_RE.match(w)\<close> on a word without separators: the word is a token, ignoring
  case; \<^verbatim>\<open>$\<close> also matches before a final newline.
\<close>

definition token_match :: "string \<Rightarrow> bool" where
  "token_match w =
     (lower w \<in> set TOKENS \<or>
      (w \<noteq> [] \<and> last w = CHR 0x0A \<and> lower (butlast w) \<in> set TOKENS))"

definition base_stem :: "string \<Rightarrow> string" where
  "base_stem p =
     (let name = foldl (\<lambda>name suf. take (length name - length suf) name)
                   (path_name p) (rev (suffixes p));
          parts = filter (\<lambda>w. w \<noteq> [] \<and> \<not> token_match w) (re_split name)
      in lower (join ''.'' parts))"

definition has :: "FileRec \<Rightarrow> string \<Rightarrow> bool" where
  "has m kind = (r_header_type m = kind \<or> r_extension_logical m = kind)"

definition is_container :: "FileRec \<Rightarrow> string list \<Rightarrow> bool" where
  "is_container m kinds = (upper (r_extension_container m) \<in> set kinds)"

text \<open>\<^verbatim>\<open>shlex.quote\<close>.\<close>

definition safe_char :: "char \<Rightarrow> bool" where
  "safe_char c =
     (c \<in> set ''abcdefghijklmnopqrstuvwxyzABCDEFGHIJKLMNOPQRSTUVWXYZ0123456789_@%+=:,./-'')"

definition shlex_quote :: "string \<Rightarrow> string" where
  "shlex_quote s =
     (if s = [] then [CHR 0x27, CHR 0x27]
      else if list_all safe_char s then s
      else [CHR 0x27]
           @ concat (map (\<lambda>c. if c = CHR 0x27
                                then [CHR 0x27, CHR 0x22, CHR 0x27, CHR 0x22, CHR 0x27]
                                else [c]) s)
           @ [CHR 0x27])"

text \<open>\<^verbatim>\<open>next(y for y in items if P(y))\<close>: the first such item, \<^verbatim>\<open>StopIteration\<close> if none.\<close>

definition next_item :: "(FileRec \<Rightarrow> bool) \<Rightarrow> FileRec list \<Rightarrow> error + FileRec" where
  "next_item P items = (case find P items of Some y \<Rightarrow> Inr y | None \<Rightarrow> Inl StopIteration)"

text \<open>A loop that appends what its body gives for each element and stops when the body
  raises.\<close>

fun collect :: "('a \<Rightarrow> error + 'b list) \<Rightarrow> 'a list \<Rightarrow> error + 'b list" where
  "collect body [] = Inr []"
| "collect body (x # xs) =
     (case body x of
        Inl e \<Rightarrow> Inl e
      | Inr ys \<Rightarrow> (case collect body xs of Inl e \<Rightarrow> Inl e | Inr zs \<Rightarrow> Inr (ys @ zs)))"

definition has_sra :: "FileRec \<Rightarrow> bool" where
  "has_sra x = endswith (upper (r_extension x)) ''SRA''"

definition fastqs :: "FileRec list \<Rightarrow> FileRec list" where
  "fastqs items = filter (\<lambda>x. has x ''FASTQ'') items"

text \<open>Rule 1: SAM erasable if BAM or CRAM exist.\<close>

definition rule_sam :: "FileRec list \<Rightarrow> error + ErasableCandidate list" where
  "rule_sam items =
     (let has_cram = list_ex (\<lambda>x. has x ''CRAM'') items;
          has_bam_any = list_ex (\<lambda>x. has x ''BAM'') items;
          has_sam = list_ex (\<lambda>x. has x ''SAM'') items
      in if ALLOW_SAM_REGEN \<and> has_sam \<and> (has_bam_any \<or> has_cram) then
           collect (\<lambda>x.
             if has x ''SAM'' then
               if has_bam_any then
                 (case next_item (\<lambda>y. has y ''BAM'') items of
                    Inl e \<Rightarrow> Inl e
                  | Inr bam \<Rightarrow> Inr [\<lparr> c_path = r_path x,
                      c_reason = ''SAM is an intermediate; re-emit from BAM'',
                      c_fidelity = ''content-equivalent (order may differ)'',
                      c_depends_on = [r_path bam],
                      c_regen_cmd = ''samtools view -h '' @ shlex_quote (r_path bam) @ '' > ''
                                      @ shlex_quote (r_path x) \<rparr>])
               else
                 (case next_item (\<lambda>y. has y ''CRAM'') items of
                    Inl e \<Rightarrow> Inl e
                  | Inr cram \<Rightarrow> Inr [\<lparr> c_path = r_path x,
                      c_reason = ''SAM is an intermediate; re-emit from CRAM'',
                      c_fidelity = ''content-equivalent (requires reference)'',
                      c_depends_on = [r_path cram, ''<ref.fa>''],
                      c_regen_cmd = ''samtools view -h -T <ref.fa> '' @ shlex_quote (r_path cram)
                                      @ '' > '' @ shlex_quote (r_path x) \<rparr>])
             else Inr []) items
         else Inr [])"

text \<open>Rule 2: uncompressed BAM erasable if CRAM exists.\<close>

definition rule_bam :: "FileRec list \<Rightarrow> error + ErasableCandidate list" where
  "rule_bam items =
     (let has_cram = list_ex (\<lambda>x. has x ''CRAM'') items;
          has_bam = list_ex (\<lambda>x. has x ''BAM'' \<and> \<not> is_container x [''GZIP'', ''BGZF'']) items
      in if has_bam \<and> has_cram then
           (case next_item (\<lambda>y. has y ''CRAM'') items of
              Inl e \<Rightarrow> Inl e
            | Inr cram \<Rightarrow>
                Inr (map (\<lambda>b. \<lparr> c_path = r_path b,
                      c_reason = ''BAM superseded by CRAM; reconstructable from CRAM'',
                      c_fidelity = ''content-equivalent (coordinate order preserved if CRAM is sorted)'',
                      c_depends_on = [r_path cram, ''<ref.fa>''],
                      c_regen_cmd = ''samtools view -b -T <ref.fa> -o '' @ shlex_quote (r_path b)
                                      @ '' '' @ shlex_quote (r_path cram) \<rparr>)
                   (filter (\<lambda>x. has x ''BAM'' \<and> \<not> is_container x [''GZIP'', ''BGZF'']) items)))
         else Inr [])"

text \<open>Rule 3: SRA against FASTQ.\<close>

definition rule_sra :: "FileRec list \<Rightarrow> error + ErasableCandidate list" where
  "rule_sra items =
     (if list_ex has_sra items \<and> fastqs items \<noteq> [] then
        if PREFER_SRA_OVER_FASTQ then
          Inr (map (\<lambda>fq. \<lparr> c_path = r_path fq,
                 c_reason = ''FASTQ re-derivable from retained SRA'',
                 c_fidelity = ''tool-deterministic (fasterq-dump + pigz)'',
                 c_depends_on = [''<SRA_ACCESSION>''],
                 c_regen_cmd = ''fasterq-dump --split-files SRRXXXXXX && pigz -p N *.fastq'' \<rparr>)
               (fastqs items))
        else
          (case next_item has_sra items of
             Inl e \<Rightarrow> Inl e
           | Inr sra \<Rightarrow> Inr [\<lparr> c_path = r_path sra,
                 c_reason = ''SRA redundant when gzipped FASTQ is retained locally'',
                 c_fidelity = ''content-equivalent (tool-dependent container)'',
                 c_depends_on = map r_path (fastqs items),
                 c_regen_cmd = ''n/a (keep FASTQ as canonical raw layer)'' \<rparr>])
      else Inr [])"

text \<open>Rule 4: trimmed FASTQ erasable if a raw FASTQ is present.\<close>

definition is_trimmed :: "FileRec \<Rightarrow> bool" where
  "is_trimmed fq = contains (lower (path_name (r_path fq))) ''trimmed''"

definition rule_trimmed :: "FileRec list \<Rightarrow> error + ErasableCandidate list" where
  "rule_trimmed items =
     (let raw_fq = filter (\<lambda>fq. \<not> is_trimmed fq) (fastqs items);
          trimmed_fq = filter is_trimmed (fastqs items)
      in if raw_fq \<noteq> [] \<and> trimmed_fq \<noteq> [] then
           (let manifest = find (\<lambda>c. endswith (lower (r_path c)) ''.manifest.json'') items
            in Inr (map (\<lambda>tfq. \<lparr> c_path = r_path tfq,
                 c_reason = ''Trimmed FASTQ is re-derivable from raw FASTQ with recorded parameters'',
                 c_fidelity = ''content-equivalent given pinned tool and params'',
                 c_depends_on = [r_path (hd raw_fq)]
                    @ (case manifest of
                         Some c \<Rightarrow> if r_path c \<noteq> [] then [r_path c] else []
                       | None \<Rightarrow> []),
                 c_regen_cmd = ''cutadapt <params_from_manifest> -o out.fq.gz raw.fq.gz'' \<rparr>)
               trimmed_fq))
         else Inr [])"

text \<open>The rules of one sample group, in order.\<close>

definition erasable_group :: "FileRec list \<Rightarrow> error + ErasableCandidate list" where
  "erasable_group items =
     collect (\<lambda>rule. rule items) [rule_sam, rule_bam, rule_sra, rule_trimmed]"

definition by_sample :: "FileRec list \<Rightarrow> (string \<times> FileRec list) list" where
  "by_sample files_out =
     foldl (\<lambda>d rec. setdefault_append (base_stem (r_path rec)) rec d) [] files_out"

definition erasability_reasoner :: "FileRec list \<Rightarrow> error + ErasableCandidate list" where
  "erasability_reasoner files_out =
     collect (\<lambda>(stem, items). erasable_group items) (by_sample files_out)"

section \<open>Scan statistics and the report\<close>

text \<open>
  What a run measures is an input of the model: the two readings of
  \<^verbatim>\<open>time.perf_counter()\<close>, and, when \<^verbatim>\<open>psutil\<close> could be imported, the outcome of the
  sample taken after the \<open>k\<close>-th directory: the CPU percentage and the resident set size
  in bytes, each \<open>None\<close> when its call raises. Seconds and percentages are real numbers.
\<close>

record runtime =
  perf_counter_start :: real
  perf_counter_end :: real
  psutil :: "(nat \<Rightarrow> real option \<times> nat option) option"

record ScanStats =
  wall_clock_s :: real
  cpu_avg :: "real option"
  cpu_peak :: "real option"
  peak_rss_mb :: "nat option"

record Report =
  n_files :: nat
  stats :: ScanStats
  mismatches :: "MismatchRecord list"
  files :: "FileRec list"
  duplicate_groups :: "DuplicateGroup list"
  erasable_candidates :: "ErasableCandidate list"

text \<open>The sampling block after each directory; an exception inside it is passed over, so
  a CPU sample taken before a failing memory query stays.\<close>

definition sample :: "runtime \<Rightarrow> nat \<Rightarrow> real list \<times> nat option \<Rightarrow> real list \<times> nat option" where
  "sample rt k st =
     (case st of (cpu_samples, peak) \<Rightarrow>
      (case psutil rt of
         None \<Rightarrow> (cpu_samples, peak)
       | Some proc \<Rightarrow>
           (case fst (proc k) of
              None \<Rightarrow> (cpu_samples, peak)
            | Some cpu \<Rightarrow>
                (case snd (proc k) of
                   None \<Rightarrow> (cpu_samples @ [cpu], peak)
                 | Some rss_bytes \<Rightarrow>
                     (let rss = rss_bytes div (1024 * 1024)
                      in (cpu_samples @ [cpu],
                          case peak of
                            None \<Rightarrow> Some rss
                          | Some pk \<Rightarrow> if rss > pk then Some rss else Some pk))))))"

text \<open>The outer loop over the directories of the walk; \<open>k\<close> counts the directories.\<close>

fun scan_dirs ::
  "scanner \<Rightarrow> filesystem \<Rightarrow> runtime \<Rightarrow> nat \<Rightarrow> string list list
     \<Rightarrow> FileMeta list \<times> real list \<times> nat option
     \<Rightarrow> error + FileMeta list \<times> real list \<times> nat option" where
  "scan_dirs sc fs rt k [] st = Inr st"
| "scan_dirs sc fs rt k (fns # rest) (metas, smp) =
     (case scan_files sc fs fns metas of
        Inl e \<Rightarrow> Inl e
      | Inr metas' \<Rightarrow>
          (let st' = (metas', sample rt k smp)
           in if cancel sc then Inr st' else scan_dirs sc fs rt (Suc k) rest st'))"

definition scan_stats :: "runtime \<Rightarrow> real list \<Rightarrow> nat option \<Rightarrow> ScanStats" where
  "scan_stats rt cpu_samples peak =
     \<lparr> wall_clock_s = max 0 (perf_counter_end rt - perf_counter_start rt),
       cpu_avg = (if cpu_samples \<noteq> []
                  then Some (sum_list cpu_samples / real (max 1 (length cpu_samples)))
                  else None),
       cpu_peak = (if cpu_samples \<noteq> []
                   then Some (foldl max (hd cpu_samples) (tl cpu_samples))
                   else None),
       peak_rss_mb = peak \<rparr>"

section \<open>The scan\<close>

text \<open>
  \<^verbatim>\<open>scan_directory(root)\<close>. The root is expanded and resolved, which may raise; a root
  that does not exist is the error the scan raises itself; then the tree is walked. The
  progress callback, and the first pass over the tree that only counts the files for it,
  are outside the model; the cancel flag is the one the scanner holds when the scan
  starts.
\<close>

definition scan_directory ::
  "(string \<Rightarrow> string) \<Rightarrow> (string \<Rightarrow> string) \<Rightarrow> scanner \<Rightarrow> runtime \<Rightarrow> filesystem \<Rightarrow> string
     \<Rightarrow> error + Report" where
  "scan_directory md5 sha256 sc rt fs root_arg =
     (case expanduser fs root_arg of
        Inl e \<Rightarrow> Inl e
      | Inr expanded \<Rightarrow>
     (case resolve fs expanded of
        Inl e \<Rightarrow> Inl e
      | Inr rootp \<Rightarrow>
     (case exists fs rootp of
        Inl e \<Rightarrow> Inl e
      | Inr found \<Rightarrow>
          if \<not> found then Inl FileNotFoundError
          else
     (case scan_dirs sc fs rt 0 (os_walk fs rootp) ([], [], None) of
        Inl e \<Rightarrow> Inl e
      | Inr (metas, cpu_samples, peak) \<Rightarrow>
          (let dups = duplicate_detector md5 sha256 sc fs metas;
               st = scan_stats rt cpu_samples peak;
               mism = mismatch_reporter sc metas;
               files_out = map file_rec metas
           in case erasability_reasoner files_out of
                Inl e \<Rightarrow> Inl e
              | Inr cands \<Rightarrow>
                  Inr \<lparr> n_files = length metas, stats = st, mismatches = mism,
                        files = files_out, duplicate_groups = dups,
                        erasable_candidates = cands \<rparr>)))))"

section \<open>The hash of the older scanner\<close>

text \<open>
  \<^verbatim>\<open>get_file_hash\<close> of \<^verbatim>\<open>src/code/file_scanner.py\<close>, with its default chunk size of
  65536. It feeds the size of the file, in decimal, to MD5 before any content: the whole
  content for a file of at most two chunks, otherwise the first chunk, a chunk from the
  middle and the last chunk. A failure gives \<^verbatim>\<open>None\<close>. The scanner above never calls it.
\<close>

fun decimal :: "nat \<Rightarrow> string" where
  "decimal n =
     (if n < 10 then [''0123456789'' ! n]
      else decimal (n div 10) @ [''0123456789'' ! (n mod 10)])"

declare decimal.simps [simp del]

definition get_file_hash :: "(string \<Rightarrow> string) \<Rightarrow> filesystem \<Rightarrow> string \<Rightarrow> string option" where
  "get_file_hash md5 fs p =
     (case stat fs p of
        Inl _ \<Rightarrow> None
      | Inr (file_size, _) \<Rightarrow>
     (case open_rb fs p of
        Inl _ \<Rightarrow> None
      | Inr f \<Rightarrow>
          if file_size \<le> 65536 * 2 then
            (case stream_feed f 65536 0 of
               Inl _ \<Rightarrow> None
             | Inr bs \<Rightarrow> Some (md5 (decimal file_size @ bs)))
          else
            (case read f 0 65536 of
               Inl _ \<Rightarrow> None
             | Inr first_chunk \<Rightarrow>
            (case read f (file_size div 2) (int (min 65536 (file_size - file_size div 2))) of
               Inl _ \<Rightarrow> None
             | Inr middle_chunk \<Rightarrow>
            (case (if file_size > 65536 then read f (file_size - 65536) 65536 else Inr []) of
               Inl _ \<Rightarrow> None
             | Inr last_chunk \<Rightarrow>
                 Some (md5 (decimal file_size @ first_chunk @ middle_chunk @ last_chunk)))))))"

section \<open>Scanner construction and example trees\<close>

text \<open>\<^verbatim>\<open>SequencingFileScanner.__init__\<close>: the cancel flag starts unset.\<close>

definition init :: "bool \<Rightarrow> int \<Rightarrow> bool \<Rightarrow> scanner" where
  "init strict_arg chunk_size_bytes include_arg =
     \<lparr> strict = strict_arg, chunk = chunk_size_bytes, cancel = False,
       include_non_bio_mismatches = include_arg \<rparr>"

text \<open>The scanner with the default arguments, and one built with a chunk size of 0.\<close>

definition default_scanner :: scanner where
  "default_scanner = init True (4 * 1024 * 1024) False"

definition zero_chunk_scanner :: scanner where
  "zero_chunk_scanner = init True 0 False"

text \<open>
  The trees below are small, so that each scan can be followed by hand. In the scans
  of these trees the two digest functions are the identity: the digest of an input is the
  input itself, which, as MD5 and SHA-256 do on these inputs, gives different inputs
  different digests. Two runs without \<^verbatim>\<open>psutil\<close> differ in the second clock reading.
\<close>

definition plain_file :: "string \<Rightarrow> regfile" where
  "plain_file bs =
     \<lparr> content = bs, mtime = 0, open_ok = True, read_ok = True, buffer_max = 2 ^ 32 \<rparr>"

text \<open>A file system without symbolic links, where every path is its own resolved path
  and the roots are the listed ones.\<close>

definition plain_fs :: "(string \<times> node) list \<Rightarrow> (string \<times> regfile) list \<Rightarrow> filesystem" where
  "plain_fs roots regfiles =
     \<lparr> expanduser = Inr, resolve = Inr, root_node = (\<lambda>p. Inr (map_of roots p)),
       inode = map_of regfiles \<rparr>"

definition run_a :: runtime where
  "run_a = \<lparr> perf_counter_start = 0, perf_counter_end = 1, psutil = None \<rparr>"

definition run_b :: runtime where
  "run_b = \<lparr> perf_counter_start = 0, perf_counter_end = 2, psutil = None \<rparr>"

text \<open>A scan root that is a regular file.\<close>

definition fs_file_root :: filesystem where
  "fs_file_root =
     plain_fs
       [(''/data/reads.fastq'', File ''/data/reads.fastq'')]
       [(''/data/reads.fastq'', plain_file ''@r1'')]"

text \<open>A small tree: an SRA archive, a FASTQ file and its copy, and a FASTA file named
  \<^verbatim>\<open>.bam\<close>; its metadata table and the report of its scan.\<close>

definition fs_sample :: filesystem where
  "fs_sample =
     plain_fs
       [(''/d'', Dir [File ''/d/s.sra'', File ''/d/s.fastq'', File ''/d/y.bam'',
               Dir [File ''/d/copy/s.fastq'']])]
       [(''/d/s.sra'', plain_file ''NCBI.sra''),
        (''/d/s.fastq'', plain_file ''@r1''),
        (''/d/y.bam'', plain_file ''>seq''),
        (''/d/copy/s.fastq'', plain_file ''@r1'')]"

definition metas_sample :: "FileMeta list" where
  "metas_sample =
     [\<lparr> m_path = ''/d/s.sra'', m_size = 8, m_mtime_ns = 0, m_header_type = ''UNKNOWN'',
         m_ext_full = ''SRA'', m_ext_container = '''', m_ext_logical = '''' \<rparr>,
      \<lparr> m_path = ''/d/s.fastq'', m_size = 3, m_mtime_ns = 0, m_header_type = ''FASTQ'',
         m_ext_full = ''FASTQ'', m_ext_container = '''', m_ext_logical = ''FASTQ'' \<rparr>,
      \<lparr> m_path = ''/d/y.bam'', m_size = 4, m_mtime_ns = 0, m_header_type = ''FASTA'',
         m_ext_full = ''BAM'', m_ext_container = '''', m_ext_logical = ''BAM'' \<rparr>,
      \<lparr> m_path = ''/d/copy/s.fastq'', m_size = 3, m_mtime_ns = 0, m_header_type = ''FASTQ'',
         m_ext_full = ''FASTQ'', m_ext_container = '''', m_ext_logical = ''FASTQ'' \<rparr>]"

definition report_sample :: Report where
  "report_sample =
     \<lparr> n_files = 4,
       stats = \<lparr> wall_clock_s = 1, cpu_avg = None, cpu_peak = None, peak_rss_mb = None \<rparr>,
       mismatches =
         [\<lparr> mm_path = ''/d/y.bam'', mm_extension = ''BAM'', mm_extension_container = '''',
             mm_extension_logical = ''BAM'', mm_header_type = ''FASTA'' \<rparr>],
       files = map file_rec metas_sample,
       duplicate_groups =
         [\<lparr> d_sha256 = ''@r1'', d_total_size = 6, d_count = 2,
             d_files = [''/d/copy/s.fastq'', ''/d/s.fastq''] \<rparr>],
       erasable_candidates =
         [\<lparr> c_path = ''/d/s.sra'',
             c_reason = ''SRA redundant when gzipped FASTQ is retained locally'',
             c_fidelity = ''content-equivalent (tool-dependent container)'',
             c_depends_on = [''/d/s.fastq'', ''/d/copy/s.fastq''],
             c_regen_cmd = ''n/a (keep FASTQ as canonical raw layer)'' \<rparr>] \<rparr>"





text \<open>The record of a file named \<^verbatim>\<open>.txt\<close>, and of one named \<^verbatim>\<open>.bin\<close>, that shows no
  known header.\<close>

definition meta_txt :: "string \<Rightarrow> nat \<Rightarrow> FileMeta" where
  "meta_txt p n =
     \<lparr> m_path = p, m_size = n, m_mtime_ns = 0, m_header_type = ''UNKNOWN'',
       m_ext_full = ''TXT'', m_ext_container = '''', m_ext_logical = '''' \<rparr>"

definition meta_bin :: "string \<Rightarrow> nat \<Rightarrow> FileMeta" where
  "meta_bin p n =
     \<lparr> m_path = p, m_size = n, m_mtime_ns = 0, m_header_type = ''UNKNOWN'',
       m_ext_full = ''BIN'', m_ext_container = '''', m_ext_logical = '''' \<rparr>"

text \<open>Four files of one size: two with one content, two with another.\<close>

definition fs_pairs :: filesystem where
  "fs_pairs =
     plain_fs
       [(''/d'', Dir [File ''/d/a1.txt'', File ''/d/a2.txt'',
               File ''/d/b1.txt'', File ''/d/b2.txt''])]
       [(''/d/a1.txt'', plain_file ''aaaa''), (''/d/a2.txt'', plain_file ''aaaa''),
        (''/d/b1.txt'', plain_file ''bbbb''), (''/d/b2.txt'', plain_file ''bbbb'')]"

definition metas_pairs :: "FileMeta list" where
  "metas_pairs =
     [meta_txt ''/d/a1.txt'' 4, meta_txt ''/d/a2.txt'' 4, meta_txt ''/d/b1.txt'' 4,
      meta_txt ''/d/b2.txt'' 4]"

text \<open>Two files of one size with different contents, both of which can be opened but not
  read; their metadata table and the report of the scan with the default scanner.\<close>

definition fs_read_errors :: filesystem where
  "fs_read_errors =
     plain_fs
       [(''/d'', Dir [File ''/d/x1.bin'', File ''/d/x2.bin''])]
       [(''/d/x1.bin'', (plain_file ''abcd'') \<lparr> read_ok := False \<rparr>),
        (''/d/x2.bin'', (plain_file ''wxyz'') \<lparr> read_ok := False \<rparr>)]"

definition metas_read_errors :: "FileMeta list" where
  "metas_read_errors = [meta_bin ''/d/x1.bin'' 4, meta_bin ''/d/x2.bin'' 4]"

definition report_read_errors :: Report where
  "report_read_errors =
     \<lparr> n_files = 2,
       stats = \<lparr> wall_clock_s = 1, cpu_avg = None, cpu_peak = None, peak_rss_mb = None \<rparr>,
       mismatches = [],
       files = map file_rec metas_read_errors,
       duplicate_groups = [],
       erasable_candidates = [] \<rparr>"

text \<open>Two one-byte files with one content and two two-byte files with another.\<close>

definition fs_two_sizes :: filesystem where
  "fs_two_sizes =
     plain_fs
       [(''/d'', Dir [File ''/d/a1.txt'', File ''/d/a2.txt'',
               File ''/d/b1.txt'', File ''/d/b2.txt''])]
       [(''/d/a1.txt'', plain_file ''x''), (''/d/a2.txt'', plain_file ''x''),
        (''/d/b1.txt'', plain_file ''yy''), (''/d/b2.txt'', plain_file ''yy'')]"

definition metas_two_sizes :: "FileMeta list" where
  "metas_two_sizes =
     [meta_txt ''/d/a1.txt'' 1, meta_txt ''/d/a2.txt'' 1, meta_txt ''/d/b1.txt'' 2,
      meta_txt ''/d/b2.txt'' 2]"

text \<open>A gzip stream stored under a name that says nothing: \<^verbatim>\<open>notes.txt\<close>.\<close>

definition fs_gzip_txt :: filesystem where
  "fs_gzip_txt =
     plain_fs
       [(''/d'', Dir [File ''/d/notes.txt''])]
       [(''/d/notes.txt'', plain_file [CHR 0x1F, CHR 0x8B, CHR 0x08, CHR 0x00])]"

definition metas_gzip_txt :: "FileMeta list" where
  "metas_gzip_txt =
     [\<lparr> m_path = ''/d/notes.txt'', m_size = 4, m_mtime_ns = 0, m_header_type = ''GZIP'',
         m_ext_full = ''TXT'', m_ext_container = '''', m_ext_logical = '''' \<rparr>]"

definition report_gzip_txt :: Report where
  "report_gzip_txt =
     \<lparr> n_files = 1,
       stats = \<lparr> wall_clock_s = 1, cpu_avg = None, cpu_peak = None, peak_rss_mb = None \<rparr>,
       mismatches =
         [\<lparr> mm_path = ''/d/notes.txt'', mm_extension = ''TXT'', mm_extension_container = '''',
             mm_extension_logical = '''', mm_header_type = ''GZIP'' \<rparr>],
       files = map file_rec metas_gzip_txt,
       duplicate_groups = [],
       erasable_candidates = [] \<rparr>"

text \<open>A FASTQ file stored under the name \<^verbatim>\<open>s.sra\<close>.\<close>

definition fs_fastq_named_sra :: filesystem where
  "fs_fastq_named_sra =
     plain_fs
       [(''/d'', Dir [File ''/d/s.sra''])]
       [(''/d/s.sra'', plain_file ''@r1'')]"

definition metas_fastq_named_sra :: "FileMeta list" where
  "metas_fastq_named_sra =
     [\<lparr> m_path = ''/d/s.sra'', m_size = 3, m_mtime_ns = 0, m_header_type = ''FASTQ'',
         m_ext_full = ''SRA'', m_ext_container = '''', m_ext_logical = '''' \<rparr>]"

text \<open>A file of one byte.\<close>

definition fs_one_byte :: filesystem where
  "fs_one_byte =
     plain_fs
       [(''/d'', Dir [File ''/d/a.txt''])]
       [(''/d/a.txt'', plain_file ''A'')]"

text \<open>
  The hash input as the claim about the sampled fingerprint words it, to be compared with
  \<open>sampled_feed\<close>: the size of the file, in decimal, before the windows.
\<close>

definition size_prefixed_feed :: "filesystem \<Rightarrow> string \<Rightarrow> error + string" where
  "size_prefixed_feed fs p =
     (case stat fs p of
        Inl e \<Rightarrow> Inl e
      | Inr (S, _) \<Rightarrow>
          (case sampled_feed fs p of Inl e \<Rightarrow> Inl e | Inr bs \<Rightarrow> Inr (decimal S @ bs)))"

section \<open>Notions used in the statements\<close>

text \<open>The values of a dictionary of lists, bucket after bucket.\<close>

definition members :: "('k \<times> 'v list) list \<Rightarrow> 'v list" where
  "members d = concat (map snd d)"

text \<open>The buckets of cardinality two or more.\<close>

definition multi :: "('k \<times> 'v list) list \<Rightarrow> ('k \<times> 'v list) list" where
  "multi d = filter (\<lambda>(k, vs). 2 \<le> length vs) d"

text \<open>What the root argument of a scan names: the node at
  \<^verbatim>\<open>Path(root).expanduser().resolve()\<close>, if any, or what looking for it raises.\<close>

definition root_at :: "filesystem \<Rightarrow> string \<Rightarrow> error + node option" where
  "root_at fs root_arg =
     (case expanduser fs root_arg of
        Inl e \<Rightarrow> Inl e
      | Inr expanded \<Rightarrow>
          (case resolve fs expanded of Inl e \<Rightarrow> Inl e | Inr rootp \<Rightarrow> root_node fs rootp))"

text \<open>The entries a scan visits, in order; their resolved paths, or the first error of
  \<^verbatim>\<open>resolve\<close>; and the record a resolved path gives.\<close>

definition walked :: "node \<Rightarrow> string list" where
  "walked n = concat (walk n)"

fun resolved :: "filesystem \<Rightarrow> string list \<Rightarrow> error + string list" where
  "resolved fs [] = Inr []"
| "resolved fs (fn # fns) =
     (case resolve fs fn of
        Inl e \<Rightarrow> Inl e
      | Inr p \<Rightarrow> (case resolved fs fns of Inl e \<Rightarrow> Inl e | Inr ps \<Rightarrow> Inr (p # ps)))"

definition meta_of :: "filesystem \<Rightarrow> string \<Rightarrow> FileMeta option" where
  "meta_of fs p = (case file_meta fs p of Inr m \<Rightarrow> Some m | Inl _ \<Rightarrow> None)"

text \<open>The metadata table of a scan below a node, or the error that ends the walk.\<close>

definition table :: "scanner \<Rightarrow> filesystem \<Rightarrow> node \<Rightarrow> error + FileMeta list" where
  "table sc fs n =
     (if cancel sc then Inr []
      else (case resolved fs (walked n) of
              Inl e \<Rightarrow> Inl e
            | Inr ps \<Rightarrow> Inr (List.map_filter (meta_of fs) ps)))"

section \<open>Dictionaries of lists\<close>

lemma setdefault_append_inv:
  "(k', vs) \<in> set (setdefault_append k v d) \<Longrightarrow> x \<in> set vs \<Longrightarrow>
     (x = v \<and> k' = k) \<or> (\<exists>vs0. (k', vs0) \<in> set d \<and> x \<in> set vs0)"
proof (induction d)
  case Nil
  then show ?case by simp
next
  case (Cons kv d)
  obtain k0 vs0 where kv: "kv = (k0, vs0)" by (cases kv)
  show ?case
  proof (cases "k0 = k")
    case True
    with Cons.prems kv have "(k', vs) = (k, vs0 @ [v]) \<or> (k', vs) \<in> set d" by simp
    with Cons.prems(2) True kv show ?thesis by fastforce
  next
    case False
    with Cons.prems kv have "(k', vs) = (k0, vs0) \<or> (k', vs) \<in> set (setdefault_append k v d)"
      by simp
    with Cons.IH Cons.prems(2) kv show ?thesis by fastforce
  qed
qed

lemma setdefault_append_new:
  "\<exists>vs. (k, vs) \<in> set (setdefault_append k v d) \<and> v \<in> set vs"
proof (induction d)
  case Nil
  show ?case by simp
next
  case (Cons kv d)
  obtain k0 vs0 where kv: "kv = (k0, vs0)" by (cases kv)
  show ?case
  proof (cases "k0 = k")
    case True
    with kv have "(k, vs0 @ [v]) \<in> set (setdefault_append k v (kv # d))" by simp
    then show ?thesis by (intro exI [of _ "vs0 @ [v]"]) simp
  next
    case False
    with Cons.IH kv show ?thesis by auto
  qed
qed

lemma setdefault_append_old:
  "(k', vs0) \<in> set d \<Longrightarrow> x \<in> set vs0 \<Longrightarrow>
     \<exists>vs. (k', vs) \<in> set (setdefault_append k v d) \<and> x \<in> set vs"
proof (induction d)
  case Nil
  then show ?case by simp
next
  case (Cons kv d)
  obtain k0 ws where kv: "kv = (k0, ws)" by (cases kv)
  show ?case
  proof (cases "(k', vs0) = kv")
    case True
    show ?thesis
    proof (cases "k0 = k")
      case True
      with \<open>(k', vs0) = kv\<close> kv have "(k', vs0 @ [v]) \<in> set (setdefault_append k v (kv # d))"
        by auto
      with Cons.prems(2) show ?thesis by (intro exI [of _ "vs0 @ [v]"]) simp
    next
      case False
      with \<open>(k', vs0) = kv\<close> kv have "(k', vs0) \<in> set (setdefault_append k v (kv # d))"
        by auto
      with Cons.prems(2) show ?thesis by blast
    qed
  next
    case False
    with Cons.prems have old: "(k', vs0) \<in> set d" by simp
    show ?thesis
    proof (cases "k0 = k")
      case True
      with old kv have "(k', vs0) \<in> set (setdefault_append k v (kv # d))" by simp
      with Cons.prems(2) show ?thesis by blast
    next
      case False
      from Cons.IH [OF old Cons.prems(2)] obtain vs1
        where "(k', vs1) \<in> set (setdefault_append k v d)" "x \<in> set vs1" by blast
      with kv False have "(k', vs1) \<in> set (setdefault_append k v (kv # d))" by simp
      with \<open>x \<in> set vs1\<close> show ?thesis by blast
    qed
  qed
qed

lemma length_members_setdefault_append:
  "length (members (setdefault_append k v d)) = Suc (length (members d))"
  by (induction d) (auto simp: members_def)

text \<open>A grouping loop: each element is appended under its key, or skipped.\<close>

lemma grouping_inv:
  "(k, vs) \<in> set (foldl (\<lambda>d x. case key x of None \<Rightarrow> d | Some kx \<Rightarrow> setdefault_append kx x d) d0 xs)
     \<Longrightarrow> v \<in> set vs
     \<Longrightarrow> (\<exists>vs0. (k, vs0) \<in> set d0 \<and> v \<in> set vs0) \<or> (v \<in> set xs \<and> key v = Some k)"
proof (induction xs arbitrary: d0)
  case Nil
  then show ?case by auto
next
  case (Cons x xs)
  let ?d1 = "case key x of None \<Rightarrow> d0 | Some kx \<Rightarrow> setdefault_append kx x d0"
  from Cons.prems have "(k, vs) \<in> set (foldl (\<lambda>d x. case key x of None \<Rightarrow> d | Some kx \<Rightarrow> setdefault_append kx x d) ?d1 xs)"
    by simp
  from Cons.IH [OF this Cons.prems(2)]
  consider (old) vs1 where "(k, vs1) \<in> set ?d1" "v \<in> set vs1" | (new) "v \<in> set xs" "key v = Some k"
    by blast
  then show ?case
  proof cases
    case old
    show ?thesis
    proof (cases "key x")
      case None
      with old show ?thesis by auto
    next
      case (Some kx)
      with old have "(k, vs1) \<in> set (setdefault_append kx x d0)" by simp
      from setdefault_append_inv [OF this old(2)] Some show ?thesis by auto
    qed
  next
    case new
    then show ?thesis by simp
  qed
qed

lemma grouping_keeps:
  "(k, vs0) \<in> set d0 \<Longrightarrow> v \<in> set vs0 \<Longrightarrow>
     \<exists>vs. (k, vs) \<in> set (foldl (\<lambda>d x. case key x of None \<Rightarrow> d | Some kx \<Rightarrow> setdefault_append kx x d) d0 xs)
          \<and> v \<in> set vs"
proof (induction xs arbitrary: d0 vs0)
  case Nil
  then show ?case by auto
next
  case (Cons x xs)
  show ?case
  proof (cases "key x")
    case None
    with Cons show ?thesis by simp
  next
    case (Some kx)
    from setdefault_append_old [OF Cons.prems, of kx x]
    obtain vs1 where "(k, vs1) \<in> set (setdefault_append kx x d0)" "v \<in> set vs1" by blast
    from Cons.IH [OF this] Some show ?thesis by simp
  qed
qed

lemma grouping_places:
  "v \<in> set xs \<Longrightarrow> key v = Some k \<Longrightarrow>
     \<exists>vs. (k, vs) \<in> set (foldl (\<lambda>d x. case key x of None \<Rightarrow> d | Some kx \<Rightarrow> setdefault_append kx x d) d0 xs)
          \<and> v \<in> set vs"
proof (induction xs arbitrary: d0)
  case Nil
  then show ?case by simp
next
  case (Cons x xs)
  show ?case
  proof (cases "v = x")
    case True
    with Cons.prems have kx: "key x = Some k" by simp
    obtain vs1 where "(k, vs1) \<in> set (setdefault_append k x d0)" "x \<in> set vs1"
      using setdefault_append_new [of k x d0] by blast
    from grouping_keeps [OF this, of key xs] kx True show ?thesis by simp
  next
    case False
    with Cons.prems have "v \<in> set xs" by simp
    from Cons.IH [OF this Cons.prems(2)] show ?thesis by simp
  qed
qed

lemma grouping_length:
  "length (members (foldl (\<lambda>d x. case key x of None \<Rightarrow> d | Some kx \<Rightarrow> setdefault_append kx x d) d0 xs))
     = length (members d0) + length (filter (\<lambda>x. key x \<noteq> None) xs)"
  by (induction xs arbitrary: d0) (auto simp: length_members_setdefault_append split: option.splits)

lemma length_members_multi: "length (members (multi d)) \<le> length (members d)"
  by (induction d) (auto simp: members_def multi_def)

lemma in_multi_iff: "(k, vs) \<in> set (multi d) \<longleftrightarrow> (k, vs) \<in> set d \<and> 2 \<le> length vs"
  by (auto simp: multi_def)

text \<open>Two nested loops: the buckets with two members or more are regrouped.\<close>

lemma regroup_inv:
  assumes "(k, vs) \<in> set (foldl (\<lambda>d (k0, grp). if length grp < 2 then d
              else foldl (\<lambda>d x. case key k0 x of None \<Rightarrow> d | Some kx \<Rightarrow> setdefault_append kx x d) d grp) d0 xss)"
    and "v \<in> set vs"
  shows "(\<exists>vs0. (k, vs0) \<in> set d0 \<and> v \<in> set vs0) \<or>
         (\<exists>k0 grp. (k0, grp) \<in> set xss \<and> 2 \<le> length grp \<and> v \<in> set grp \<and> key k0 v = Some k)"
  using assms
proof (induction xss arbitrary: d0)
  case Nil
  then show ?case by auto
next
  case (Cons kg xss)
  obtain k0 grp where kg: "kg = (k0, grp)" by (cases kg)
  let ?d1 = "if length grp < 2 then d0
             else foldl (\<lambda>d x. case key k0 x of None \<Rightarrow> d | Some kx \<Rightarrow> setdefault_append kx x d) d0 grp"
  from Cons.prems kg have "(k, vs) \<in> set (foldl (\<lambda>d (k0, grp). if length grp < 2 then d
              else foldl (\<lambda>d x. case key k0 x of None \<Rightarrow> d | Some kx \<Rightarrow> setdefault_append kx x d) d grp) ?d1 xss)"
    by simp
  from Cons.IH [OF this Cons.prems(2)]
  consider (old) vs1 where "(k, vs1) \<in> set ?d1" "v \<in> set vs1"
    | (new) k1 g1 where "(k1, g1) \<in> set xss" "2 \<le> length g1" "v \<in> set g1" "key k1 v = Some k"
    by blast
  then show ?case
  proof cases
    case old
    show ?thesis
    proof (cases "length grp < 2")
      case True
      with old show ?thesis by auto
    next
      case False
      with old have "(k, vs1) \<in> set (foldl (\<lambda>d x. case key k0 x of None \<Rightarrow> d | Some kx \<Rightarrow> setdefault_append kx x d) d0 grp)"
        by simp
      from grouping_inv [OF this old(2)] False kg show ?thesis by fastforce
    qed
  next
    case new
    then show ?thesis by fastforce
  qed
qed

lemma regroup_keeps:
  assumes "(k, vs0) \<in> set d0" and "v \<in> set vs0"
  shows "\<exists>vs. (k, vs) \<in> set (foldl (\<lambda>d (k0, grp). if length grp < 2 then d
              else foldl (\<lambda>d x. case key k0 x of None \<Rightarrow> d | Some kx \<Rightarrow> setdefault_append kx x d) d grp) d0 xss)
           \<and> v \<in> set vs"
  using assms
proof (induction xss arbitrary: d0 vs0)
  case Nil
  then show ?case by auto
next
  case (Cons kg xss)
  obtain k0 grp where kg: "kg = (k0, grp)" by (cases kg)
  show ?case
  proof (cases "length grp < 2")
    case True
    with Cons kg show ?thesis by simp
  next
    case False
    from grouping_keeps [OF Cons.prems, of "key k0" grp]
    obtain vs1 where "(k, vs1) \<in> set (foldl (\<lambda>d x. case key k0 x of None \<Rightarrow> d | Some kx \<Rightarrow> setdefault_append kx x d) d0 grp)" "v \<in> set vs1"
      by blast
    from Cons.IH [OF this] False kg show ?thesis by simp
  qed
qed

lemma regroup_places:
  assumes "(k0, grp) \<in> set xss" and "2 \<le> length grp" and "v \<in> set grp" and "key k0 v = Some k"
  shows "\<exists>vs. (k, vs) \<in> set (foldl (\<lambda>d (k0, grp). if length grp < 2 then d
              else foldl (\<lambda>d x. case key k0 x of None \<Rightarrow> d | Some kx \<Rightarrow> setdefault_append kx x d) d grp) d0 xss)
           \<and> v \<in> set vs"
  using assms
proof (induction xss arbitrary: d0)
  case Nil
  then show ?case by simp
next
  case (Cons kg xss)
  show ?case
  proof (cases "kg = (k0, grp)")
    case True
    from grouping_places [of v grp "key k0" k d0, OF Cons.prems(3,4)]
    obtain vs1 where "(k, vs1) \<in> set (foldl (\<lambda>d x. case key k0 x of None \<Rightarrow> d | Some kx \<Rightarrow> setdefault_append kx x d) d0 grp)" "v \<in> set vs1"
      by blast
    from regroup_keeps [OF this, of key xss] True Cons.prems(2) show ?thesis by simp
  next
    case False
    with Cons.prems have "(k0, grp) \<in> set xss" by simp
    from Cons.IH [OF this Cons.prems(2,3,4)] show ?thesis by simp
  qed
qed

lemma regroup_length:
  "length (members (foldl (\<lambda>d (k0, grp). if length grp < 2 then d
              else foldl (\<lambda>d x. case key k0 x of None \<Rightarrow> d | Some kx \<Rightarrow> setdefault_append kx x d) d grp) d0 xss))
     \<le> length (members d0) + length (members (multi xss))"
proof (induction xss arbitrary: d0)
  case Nil
  then show ?case by (simp add: multi_def members_def)
next
  case (Cons kg xss)
  obtain k0 grp where kg: "kg = (k0, grp)" by (cases kg)
  let ?d1 = "if length grp < 2 then d0
             else foldl (\<lambda>d x. case key k0 x of None \<Rightarrow> d | Some kx \<Rightarrow> setdefault_append kx x d) d0 grp"
  have "length (members ?d1) \<le> length (members d0) + (if length grp < 2 then 0 else length grp)"
    by (simp add: grouping_length)
  moreover have "length (members (multi (kg # xss)))
      = (if length grp < 2 then 0 else length grp) + length (members (multi xss))"
    using kg by (simp add: multi_def members_def)
  moreover note Cons.IH [of ?d1]
  ultimately show ?case using kg by simp
qed

section \<open>The three tiers as grouping loops\<close>

lemma by_size_grouping:
  "by_size metas =
     foldl (\<lambda>d x. case (if m_size x > 0 then Some (m_size x) else None) of
                     None \<Rightarrow> d | Some kx \<Rightarrow> setdefault_append kx x d) [] metas"
proof -
  have "(\<lambda>d m. if m_size m > 0 then setdefault_append (m_size m) m d else d)
      = (\<lambda>d x. case (if m_size x > 0 then Some (m_size x) else None) of
                     None \<Rightarrow> d | Some kx \<Rightarrow> setdefault_append kx x d)"
    by (intro ext) simp
  then show ?thesis unfolding by_size_def by (rule arg_cong [where f = "\<lambda>step. foldl step [] metas"])
qed

lemma by_size_inv:
  assumes "(k, vs) \<in> set (by_size metas)" and "v \<in> set vs"
  shows "v \<in> set metas \<and> m_size v = k \<and> 0 < k"
  using grouping_inv [OF assms [unfolded by_size_grouping]]
  by (auto split: if_splits)

lemma by_fp_regroup:
  "by_fp md5 fs sized =
     foldl (\<lambda>d (k0, grp). if length grp < 2 then d
              else foldl (\<lambda>d x. case Some (k0, fp_or_ERR md5 fs x) of
                                   None \<Rightarrow> d | Some kx \<Rightarrow> setdefault_append kx x d) d grp) [] sized"
  by (simp add: by_fp_def cong: if_cong)

lemma by_fp_inv:
  assumes "(k, vs) \<in> set (by_fp md5 fs sized)" and "v \<in> set vs"
  shows "\<exists>sz grp. (sz, grp) \<in> set sized \<and> 2 \<le> length grp \<and> v \<in> set grp \<and> k = (sz, fp_or_ERR md5 fs v)"
  using regroup_inv [of k vs "\<lambda>k0 x. Some (k0, fp_or_ERR md5 fs x)" "[]" sized v] assms
  by (auto simp: by_fp_regroup)

lemma by_fp_places:
  assumes "(sz, grp) \<in> set sized" and "2 \<le> length grp" and "v \<in> set grp"
  shows "\<exists>vs. ((sz, fp_or_ERR md5 fs v), vs) \<in> set (by_fp md5 fs sized) \<and> v \<in> set vs"
  using regroup_places [of sz grp sized v "\<lambda>k0 x. Some (k0, fp_or_ERR md5 fs x)" "(sz, fp_or_ERR md5 fs v)" "[]"] assms
  by (simp add: by_fp_regroup)

lemma by_fp_length:
  "length (members (by_fp md5 fs sized)) \<le> length (members (multi sized))"
  using regroup_length [of "\<lambda>k0 x. Some (k0, fp_or_ERR md5 fs x)" "[]" sized]
  by (simp add: by_fp_regroup members_def)

lemma groups_regroup:
  "groups sha256 sc fs fingerprinted =
     foldl (\<lambda>d (k0, grp). if length grp < 2 then d
              else foldl (\<lambda>d x. case (case stream_hash sha256 sc fs (m_path x) of
                                          Inl _ \<Rightarrow> None | Inr sha \<Rightarrow> Some sha) of
                                   None \<Rightarrow> d | Some kx \<Rightarrow> setdefault_append kx x d) d grp) [] fingerprinted"
  unfolding groups_def
  by (intro foldl_cong refl) (auto split: sum.splits intro!: foldl_cong)

lemma groups_inv:
  assumes "(sha, vs) \<in> set (groups sha256 sc fs fingerprinted)" and "v \<in> set vs"
  shows "\<exists>k b. (k, b) \<in> set fingerprinted \<and> 2 \<le> length b \<and> v \<in> set b
           \<and> stream_hash sha256 sc fs (m_path v) = Inr sha"
  using regroup_inv [of sha vs "\<lambda>k0 x. case stream_hash sha256 sc fs (m_path x) of
                                          Inl _ \<Rightarrow> None | Inr sha \<Rightarrow> Some sha" "[]" fingerprinted v] assms
  by (auto simp: groups_regroup split: sum.splits)

lemma groups_length:
  "length (members (groups sha256 sc fs fingerprinted)) \<le> length (members (multi fingerprinted))"
  using regroup_length [of "\<lambda>k0 x. case stream_hash sha256 sc fs (m_path x) of
                                          Inl _ \<Rightarrow> None | Inr sha \<Rightarrow> Some sha" "[]" fingerprinted]
  by (simp add: groups_regroup members_def)

section \<open>The walk loop\<close>

lemma resolved_append:
  "resolved fs (ps @ qs) =
     (case resolved fs ps of
        Inl e \<Rightarrow> Inl e
      | Inr ps' \<Rightarrow> (case resolved fs qs of Inl e \<Rightarrow> Inl e | Inr qs' \<Rightarrow> Inr (ps' @ qs')))"
  by (induction ps) (auto split: sum.splits)

lemma resolved_plain: "resolve fs = Inr \<Longrightarrow> resolved fs ps = Inr ps"
  by (induction ps) auto

lemma resolved_length: "resolved fs ps = Inr qs \<Longrightarrow> length qs = length ps"
  by (induction ps arbitrary: qs) (auto split: sum.splits)

lemma scan_files_eq:
  "scan_files sc fs ps metas =
     (if cancel sc then Inr metas
      else (case resolved fs ps of
              Inl e \<Rightarrow> Inl e
            | Inr qs \<Rightarrow> Inr (metas @ List.map_filter (meta_of fs) qs)))"
  by (induction ps arbitrary: metas)
     (auto simp: List.map_filter_simps meta_of_def split: sum.splits)

lemma scan_dirs_metas:
  "map_sum id fst (scan_dirs sc fs rt k dirs (metas, smp)) =
     (if cancel sc then Inr metas
      else (case resolved fs (concat dirs) of
              Inl e \<Rightarrow> Inl e
            | Inr qs \<Rightarrow> Inr (metas @ List.map_filter (meta_of fs) qs)))"
proof (induction dirs arbitrary: k metas smp)
  case Nil
  then show ?case by (simp add: List.map_filter_simps)
next
  case (Cons fns rest)
  show ?case
  proof (cases "cancel sc")
    case True
    then show ?thesis by (simp add: scan_files_eq Let_def)
  next
    case nc: False
    show ?thesis
    proof (cases "resolved fs fns")
      case (Inl e)
      with nc show ?thesis by (simp add: scan_files_eq resolved_append)
    next
      case (Inr qs)
      with nc have step: "scan_dirs sc fs rt k (fns # rest) (metas, smp) =
          scan_dirs sc fs rt (Suc k) rest (metas @ List.map_filter (meta_of fs) qs, sample rt k smp)"
        by (simp add: scan_files_eq Let_def)
      show ?thesis
        unfolding step Cons.IH using nc Inr
        by (cases "resolved fs (concat rest)")
           (simp_all add: resolved_append List.map_filter_def)
    qed
  qed
qed

lemma scan_dirs_table:
  "map_sum id fst (scan_dirs sc fs rt 0 (walk n) ([], [], None)) = table sc fs n"
  unfolding scan_dirs_metas table_def walked_def
  by (cases "resolved fs (concat (walk n))") simp_all







lemma meta_of_size:
  assumes "meta_of fs p = Some m" and "inode fs p = Some f"
  shows "m_size m = length (content f)"
proof -
  from assms(2) have "stat fs p = Inr (length (content f), mtime f)" by (simp add: stat_def)
  with assms(1) show ?thesis
    by (auto simp: meta_of_def file_meta_def Let_def split: prod.splits)
qed

section \<open>The erasability rules\<close>

lemma collect_inv:
  "collect body xs = Inr ys \<Longrightarrow> y \<in> set ys \<Longrightarrow>
     \<exists>x zs. x \<in> set xs \<and> body x = Inr zs \<and> y \<in> set zs"
proof (induction xs arbitrary: ys)
  case Nil
  then show ?case by simp
next
  case (Cons x xs)
  from Cons.prems(1) obtain zs ws where b: "body x = Inr zs" and c: "collect body xs = Inr ws"
    and ys: "ys = zs @ ws"
    by (auto split: sum.splits)
  from Cons.prems(2) ys consider "y \<in> set zs" | "y \<in> set ws" by auto
  then show ?case
  proof cases
    case 1
    with b show ?thesis by auto
  next
    case 2
    from Cons.IH [OF c 2] show ?thesis by auto
  qed
qed

lemma collect_total:
  "(\<And>x. x \<in> set xs \<Longrightarrow> \<exists>zs. body x = Inr zs) \<Longrightarrow> \<exists>ys. collect body xs = Inr ys"
proof (induction xs)
  case Nil
  show ?case by simp
next
  case (Cons x xs)
  from Cons.prems [of x] obtain zs where "body x = Inr zs" by auto
  moreover from Cons.IH Cons.prems obtain ws where "collect body xs = Inr ws" by auto
  ultimately show ?case by simp
qed

lemma next_item_Inr: "next_item P items = Inr y \<Longrightarrow> y \<in> set items \<and> P y"
  by (auto simp: next_item_def find_Some_iff split: option.splits)

lemma next_item_total: "list_ex P items \<Longrightarrow> \<exists>y. next_item P items = Inr y"
  by (cases "find P items") (auto simp: next_item_def find_None_iff list_ex_iff)

lemma rule_sam_total: "\<exists>cs. rule_sam items = Inr cs"
proof (cases "list_ex (\<lambda>x. has x ''BAM'') items")
  case True
  from next_item_total [OF this] obtain bam where "next_item (\<lambda>y. has y ''BAM'') items = Inr bam"
    by auto
  with True show ?thesis
    unfolding rule_sam_def Let_def
    by (auto intro!: collect_total)
next
  case False
  show ?thesis
  proof (cases "list_ex (\<lambda>x. has x ''CRAM'') items")
    case True
    from next_item_total [OF this] obtain cram where "next_item (\<lambda>y. has y ''CRAM'') items = Inr cram"
      by auto
    with False show ?thesis
      unfolding rule_sam_def Let_def
      by (auto intro!: collect_total)
  next
    case nocram: False
    with False show ?thesis by (simp add: rule_sam_def)
  qed
qed

lemma rule_sam_paths:
  assumes "rule_sam items = Inr cs" and "c \<in> set cs"
  shows "c_path c \<in> r_path ` set items"
proof -
  from assms obtain body where "collect body items = Inr cs"
    and body: "\<And>x zs z. body x = Inr zs \<Longrightarrow> z \<in> set zs \<Longrightarrow> c_path z = r_path x"
    unfolding rule_sam_def Let_def
    by (fastforce split: if_splits sum.splits)
  from collect_inv [OF this(1) assms(2)] body show ?thesis by blast
qed

lemma rule_bam_total: "\<exists>cs. rule_bam items = Inr cs"
proof (cases "list_ex (\<lambda>x. has x ''CRAM'') items")
  case True
  from next_item_total [OF this] obtain cram where "next_item (\<lambda>y. has y ''CRAM'') items = Inr cram"
    by auto
  then show ?thesis by (simp add: rule_bam_def Let_def)
next
  case False
  then show ?thesis by (simp add: rule_bam_def)
qed

lemma rule_bam_paths:
  assumes "rule_bam items = Inr cs" and "c \<in> set cs"
  shows "c_path c \<in> r_path ` set items"
  using assms unfolding rule_bam_def Let_def
  by (auto split: if_splits sum.splits)

lemma rule_sra_total: "\<exists>cs. rule_sra items = Inr cs"
proof (cases "list_ex has_sra items")
  case True
  from next_item_total [OF this] obtain sra where "next_item has_sra items = Inr sra" by auto
  then show ?thesis by (simp add: rule_sra_def)
next
  case False
  then show ?thesis by (simp add: rule_sra_def)
qed

lemma rule_sra_paths:
  assumes "rule_sra items = Inr cs" and "c \<in> set cs"
  shows "c_path c \<in> r_path ` set items"
  using assms unfolding rule_sra_def PREFER_SRA_OVER_FASTQ_def
  by (auto split: if_splits sum.splits dest: next_item_Inr)

lemma rule_trimmed_total: "\<exists>cs. rule_trimmed items = Inr cs"
  by (simp add: rule_trimmed_def Let_def)

lemma rule_trimmed_paths:
  assumes "rule_trimmed items = Inr cs" and "c \<in> set cs"
  shows "c_path c \<in> r_path ` set items"
  using assms unfolding rule_trimmed_def Let_def fastqs_def
  by (auto split: if_splits)

lemma erasable_group_total: "\<exists>cs. erasable_group items = Inr cs"
  unfolding erasable_group_def
  using rule_sam_total rule_bam_total rule_sra_total rule_trimmed_total
  by (intro collect_total) auto

lemma erasable_group_paths:
  assumes "erasable_group items = Inr cs" and "c \<in> set cs"
  shows "c_path c \<in> r_path ` set items"
proof -
  from collect_inv [OF assms [unfolded erasable_group_def]]
  obtain rule zs where "rule \<in> {rule_sam, rule_bam, rule_sra, rule_trimmed}"
    "rule items = Inr zs" "c \<in> set zs"
    by auto
  then show ?thesis
    using rule_sam_paths rule_bam_paths rule_sra_paths rule_trimmed_paths by blast
qed

lemma by_sample_grouping:
  "by_sample files_out =
     foldl (\<lambda>d x. case Some (base_stem (r_path x)) of
                     None \<Rightarrow> d | Some kx \<Rightarrow> setdefault_append kx x d) [] files_out"
  by (simp add: by_sample_def)

lemma by_sample_inv:
  assumes "(stem, items) \<in> set (by_sample files_out)" and "x \<in> set items"
  shows "x \<in> set files_out \<and> base_stem (r_path x) = stem"
  using grouping_inv [OF assms [unfolded by_sample_grouping]] by auto

lemma erasability_reasoner_total: "\<exists>cs. erasability_reasoner files_out = Inr cs"
  unfolding erasability_reasoner_def
  using erasable_group_total by (intro collect_total) auto

lemma erasability_reasoner_paths:
  assumes "erasability_reasoner files_out = Inr cs" and "c \<in> set cs"
  shows "c_path c \<in> r_path ` set files_out"
proof -
  from collect_inv [OF assms [unfolded erasability_reasoner_def]]
  obtain stem items zs where "(stem, items) \<in> set (by_sample files_out)"
    "erasable_group items = Inr zs" "c \<in> set zs"
    by auto
  with erasable_group_paths [of items zs c] by_sample_inv [of stem items files_out]
  show ?thesis by blast
qed

section \<open>The two hash routines in closed form\<close>

lemma stream_feed_zero: "stream_feed f 0 pos = Inr []"
  by (subst stream_feed.simps) (simp add: read_def)

lemma stream_feed_fails: "read f pos n = Inl e \<Longrightarrow> stream_feed f n pos = Inl e"
  by (subst stream_feed.simps) simp

text \<open>Whether a read fails does not depend on the offset.\<close>

lemma read_fails_anywhere: "read f pos n = Inl e \<Longrightarrow> read f pos' n = Inl e"
  by (auto simp: read_def split: if_splits)

lemma read_returns:
  assumes "read f pos n = Inr bs" and "n \<noteq> 0"
  shows "(n = - 1 \<and> (\<forall>q. read f q n = Inr (drop q (content f))))
       \<or> (0 < n \<and> (\<forall>q. read f q n = Inr (take (nat n) (drop q (content f)))))"
  using assms by (auto simp: read_def split: if_splits)

lemma stream_feed_pos:
  assumes "0 < n" and "\<And>q. read f q n = Inr (take (nat n) (drop q (content f)))"
  shows "stream_feed f n pos = Inr (drop pos (content f))"
  using assms
proof (induction f n pos rule: stream_feed.induct)
  case (1 f n pos)
  let ?bs = "take (nat n) (drop pos (content f))"
  from 1 have r: "read f pos n = Inr ?bs" by simp
  show ?case
  proof (cases "?bs = []")
    case True
    with 1 have "drop pos (content f) = []" by auto
    with r True show ?thesis by (subst stream_feed.simps) simp
  next
    case False
    from "1.IH" [OF r False "1.prems"] have
      "stream_feed f n (pos + length ?bs) = Inr (drop (pos + length ?bs) (content f))" .
    moreover have "?bs @ drop (pos + length ?bs) (content f) = drop pos (content f)"
      by (metis add.commute append_take_drop_id drop_drop length_take min.commute take_all_iff nat_le_linear take_take)
    ultimately show ?thesis using r False by (subst stream_feed.simps) simp
  qed
qed

lemma stream_feed_neg:
  assumes r: "\<And>q. read f q n = Inr (drop q (content f))"
  shows "stream_feed f n pos = Inr (drop pos (content f))"
proof (cases "drop pos (content f) = []")
  case True
  with r show ?thesis by (subst stream_feed.simps) simp
next
  case False
  have "stream_feed f n (pos + length (drop pos (content f))) = Inr []"
    using r by (subst stream_feed.simps) simp
  with r False show ?thesis by (subst stream_feed.simps) simp
qed

text \<open>The first read decides: the loop fails as that read does, and otherwise feeds the
  rest of the file, unless the count is 0.\<close>

lemma stream_feed_eq:
  "stream_feed f n pos =
     (if n = 0 then Inr []
      else (case read f pos n of Inl e \<Rightarrow> Inl e | Inr _ \<Rightarrow> Inr (drop pos (content f))))"
proof (cases "n = 0")
  case True
  then show ?thesis by (simp add: stream_feed_zero)
next
  case nz: False
  show ?thesis
  proof (cases "read f pos n")
    case (Inl e)
    with nz stream_feed_fails [OF Inl] show ?thesis by simp
  next
    case (Inr bs)
    from read_returns [OF Inr nz] have "stream_feed f n pos = Inr (drop pos (content f))"
      using stream_feed_pos [of n f pos] stream_feed_neg [of f n pos] by blast
    with nz Inr show ?thesis by simp
  qed
qed

lemma stream_hash_eq:
  "stream_hash sha256 sc fs p =
     (case inode fs p of
        None \<Rightarrow> Inl OSError
      | Some f \<Rightarrow>
          if \<not> open_ok f then Inl OSError
          else if chunk sc = 0 then Inr (sha256 [])
          else (case read f 0 (chunk sc) of
                  Inl e \<Rightarrow> Inl e
                | Inr _ \<Rightarrow> Inr (sha256 (content f))))"
  by (simp add: stream_hash_def open_rb_def stream_feed_eq split: option.splits sum.splits)

text \<open>A count between 1 and the largest buffer is read as long as the file can be read.\<close>

lemma read_count_ok:
  assumes "0 < n" and "n \<le> max 65536 (buffer_max f)" and "buffer_max f < 2 ^ 63 - 33"
  shows "read f pos n = (if read_ok f then Inr (take (nat n) (drop pos (content f))) else Inl OSError)"
  using assms by (auto simp: read_def)

lemma sampled_feed_eq:
  "sampled_feed fs p =
     (case inode fs p of
        None \<Rightarrow> Inl OSError
      | Some f \<Rightarrow>
          if \<not> open_ok f then Inl OSError
          else if \<not> read_ok f then Inl OSError
          else Inr (take 65536 (content f)
                    @ (if length (content f) \<ge> 196608
                       then take 65536 (drop (length (content f) div 2 - 32768) (content f)) else [])
                    @ (if length (content f) \<ge> 65536
                       then take 65536 (drop (length (content f) - 65536) (content f)) else [])))"
  by (simp add: sampled_feed_def stat_def open_rb_def read_def split: option.splits)

lemma read_fails_unreadable: "\<not> read_ok f \<Longrightarrow> n \<noteq> 0 \<Longrightarrow> isl (read f pos n)"
  by (simp add: read_def)

lemma sampled_failure_is_stream_failure:
  assumes "isl (sampled_fingerprint md5 fs p)" and "chunk sc \<noteq> 0"
  shows "isl (stream_hash sha256 sc fs p)"
proof (cases "inode fs p")
  case None
  then show ?thesis by (simp add: stream_hash_eq)
next
  case (Some f)
  show ?thesis
  proof (cases "open_ok f")
    case False
    with Some show ?thesis by (simp add: stream_hash_eq)
  next
    case True
    with assms(1) Some have "\<not> read_ok f"
      by (auto simp: sampled_fingerprint_def sampled_feed_eq split: if_splits)
    from read_fails_unreadable [OF this assms(2), of 0] Some True assms(2) show ?thesis
      by (auto simp: stream_hash_eq split: sum.splits)
  qed
qed

section \<open>The parts of a report\<close>

lemma dup_out_inv:
  assumes "g \<in> set (dup_out gs)"
  shows "\<exists>sha grp. (sha, grp) \<in> set gs \<and> 2 \<le> length grp \<and> d_sha256 g = sha
            \<and> d_total_size g = m_size (hd grp) * length grp \<and> d_count g = length grp
            \<and> d_files g = sort (map m_path grp)"
  using assms by (auto simp: dup_out_def)

lemma duplicate_member:
  assumes "g \<in> set (duplicate_detector md5 sha256 sc fs metas)" and "p \<in> set (d_files g)"
  shows "\<exists>m \<in> set metas. m_path m = p \<and> 0 < m_size m
           \<and> stream_hash sha256 sc fs p = Inr (d_sha256 g)"
proof -
  from dup_out_inv [OF assms(1) [unfolded duplicate_detector_def]]
  obtain grp where grp: "(d_sha256 g, grp) \<in> set (groups sha256 sc fs (by_fp md5 fs (by_size metas)))"
    and files: "d_files g = sort (map m_path grp)"
    by blast
  from assms(2) files obtain m where m: "m \<in> set grp" "m_path m = p" by auto
  from groups_inv [OF grp m(1)] obtain k b where
    b: "(k, b) \<in> set (by_fp md5 fs (by_size metas))" "m \<in> set b"
    and sh: "stream_hash sha256 sc fs (m_path m) = Inr (d_sha256 g)"
    by blast
  from by_fp_inv [OF b] obtain sz sg where "(sz, sg) \<in> set (by_size metas)" "m \<in> set sg"
    by blast
  from by_size_inv [OF this] m sh show ?thesis by auto
qed

lemma mismatch_of_path: "mismatch_of sc m = Some r \<Longrightarrow> mm_path r = m_path m"
  by (auto simp: mismatch_of_def Let_def split: if_splits)

lemma mismatch_reporter_inv:
  assumes "r \<in> set (mismatch_reporter sc metas)"
  shows "\<exists>m \<in> set metas. mismatch_of sc m = Some r"
  using assms by (auto simp: mismatch_reporter_def List.map_filter_def)

lemma root_at_Some:
  assumes "root_at fs r = Inr (Some rootp)"
  shows "\<exists>expanded p. expanduser fs r = Inr expanded \<and> resolve fs expanded = Inr p
           \<and> exists fs p = Inr True \<and> os_walk fs p = walk rootp"
proof -
  from assms obtain expanded where e: "expanduser fs r = Inr expanded"
    by (cases "expanduser fs r") (auto simp: root_at_def)
  with assms obtain p where p: "resolve fs expanded = Inr p"
    by (cases "resolve fs expanded") (auto simp: root_at_def)
  with assms e have "root_node fs p = Inr (Some rootp)" by (simp add: root_at_def)
  then have "exists fs p = Inr True" "os_walk fs p = walk rootp"
    by (simp_all add: exists_def os_walk_def)
  with e p show ?thesis by blast
qed

lemma scan_directory_root_error:
  "root_at fs r = Inl e \<Longrightarrow> scan_directory md5 sha256 sc rt fs r = Inl e"
  by (auto simp: root_at_def scan_directory_def exists_def split: sum.splits)

lemma scan_directory_root_missing:
  "root_at fs r = Inr None \<Longrightarrow> scan_directory md5 sha256 sc rt fs r = Inl FileNotFoundError"
  by (auto simp: root_at_def scan_directory_def exists_def split: sum.splits)

lemma scan_directory_eq:
  assumes "root_at fs r = Inr (Some rootp)"
  shows "case table sc fs rootp of
           Inl e \<Rightarrow> scan_directory md5 sha256 sc rt fs r = Inl e
         | Inr metas \<Rightarrow>
             (\<exists>cands smp.
                erasability_reasoner (map file_rec metas) = Inr cands \<and>
                scan_directory md5 sha256 sc rt fs r =
                  Inr \<lparr> n_files = length metas,
                        stats = scan_stats rt (fst smp) (snd smp),
                        mismatches = mismatch_reporter sc metas,
                        files = map file_rec metas,
                        duplicate_groups = duplicate_detector md5 sha256 sc fs metas,
                        erasable_candidates = cands \<rparr>)"
proof -
  from root_at_Some [OF assms] obtain expanded p where
    rt: "expanduser fs r = Inr expanded" "resolve fs expanded = Inr p"
        "exists fs p = Inr True" "os_walk fs p = walk rootp"
    by blast
  show ?thesis
  proof (cases "scan_dirs sc fs rt 0 (walk rootp) ([], [], None)")
    case (Inl e)
    with scan_dirs_table [of sc fs rt rootp] have "table sc fs rootp = Inl e" by simp
    moreover from rt Inl have "scan_directory md5 sha256 sc rt fs r = Inl e"
      by (simp add: scan_directory_def)
    ultimately show ?thesis by simp
  next
    case (Inr st)
    obtain metas cpu peak where st: "st = (metas, cpu, peak)" by (cases st) auto
    with Inr scan_dirs_table [of sc fs rt rootp] have t: "table sc fs rootp = Inr metas" by simp
    obtain cands where c: "erasability_reasoner (map file_rec metas) = Inr cands"
      using erasability_reasoner_total by blast
    from rt Inr st c have
      "scan_directory md5 sha256 sc rt fs r =
          Inr \<lparr> n_files = length metas, stats = scan_stats rt cpu peak,
                mismatches = mismatch_reporter sc metas, files = map file_rec metas,
                duplicate_groups = duplicate_detector md5 sha256 sc fs metas,
                erasable_candidates = cands \<rparr>"
      by (simp add: scan_directory_def Let_def)
    with c have "\<exists>cands smp.
                erasability_reasoner (map file_rec metas) = Inr cands \<and>
                scan_directory md5 sha256 sc rt fs r =
                  Inr \<lparr> n_files = length metas,
                        stats = scan_stats rt (fst smp) (snd smp),
                        mismatches = mismatch_reporter sc metas,
                        files = map file_rec metas,
                        duplicate_groups = duplicate_detector md5 sha256 sc fs metas,
                        erasable_candidates = cands \<rparr>"
      by (intro exI [of _ cands] exI [of _ "(cpu, peak)"]) simp
    with t show ?thesis by simp
  qed
qed

text \<open>The scan returns a report exactly when the root exists and the walk is not ended
  by an error of \<^verbatim>\<open>resolve\<close>.\<close>

lemma scan_directory_total:
  assumes "root_at fs r = Inr (Some rootp)" and "table sc fs rootp = Inr metas"
  shows "\<exists>rep. scan_directory md5 sha256 sc rt fs r = Inr rep"
  using scan_directory_eq [OF assms(1), of md5 sha256 sc rt] assms(2) by auto

lemma scan_directory_aborts:
  assumes "root_at fs r = Inr (Some rootp)" and "table sc fs rootp = Inl e"
  shows "scan_directory md5 sha256 sc rt fs r = Inl e"
  using scan_directory_eq [OF assms(1), of md5 sha256 sc rt] assms(2) by simp

lemma scan_directory_fields:
  assumes "scan_directory md5 sha256 sc rt fs r = Inr rep"
  shows "\<exists>rootp metas. root_at fs r = Inr (Some rootp)
           \<and> table sc fs rootp = Inr metas
           \<and> n_files rep = length metas
           \<and> mismatches rep = mismatch_reporter sc metas
           \<and> files rep = map file_rec metas
           \<and> duplicate_groups rep = duplicate_detector md5 sha256 sc fs metas
           \<and> erasability_reasoner (map file_rec metas) = Inr (erasable_candidates rep)"
proof -
  from assms scan_directory_root_error [of fs r _ md5 sha256 sc rt]
    scan_directory_root_missing [of fs r md5 sha256 sc rt]
  obtain rootp where rp: "root_at fs r = Inr (Some rootp)"
    by (cases "root_at fs r") auto
  from scan_directory_eq [OF rp, of md5 sha256 sc rt] assms obtain metas where
    "table sc fs rootp = Inr metas" by (cases "table sc fs rootp") auto
  with scan_directory_eq [OF rp, of md5 sha256 sc rt] assms rp show ?thesis by auto
qed

lemma scan_dirs_no_psutil:
  "psutil rt = None \<Longrightarrow>
     scan_dirs sc fs rt k dirs (metas, [], None) =
       (if cancel sc then Inr (metas, [], None)
        else (case resolved fs (concat dirs) of
                Inl e \<Rightarrow> Inl e
              | Inr qs \<Rightarrow> Inr (metas @ List.map_filter (meta_of fs) qs, [], None)))"
  by (induction dirs arbitrary: k metas)
     (auto simp: scan_files_eq sample_def Let_def List.map_filter_def resolved_append
           split: sum.splits)

lemma scan_directory_no_psutil:
  assumes "root_at fs r = Inr (Some rootp)" and "resolve fs = Inr"
    and "\<not> cancel sc" and "psutil rt = None"
    and "List.map_filter (meta_of fs) (walked rootp) = metas"
    and "erasability_reasoner (map file_rec metas) = Inr cands"
  shows "scan_directory md5 sha256 sc rt fs r =
           Inr \<lparr> n_files = length metas,
                 stats = \<lparr> wall_clock_s = max 0 (perf_counter_end rt - perf_counter_start rt),
                           cpu_avg = None, cpu_peak = None, peak_rss_mb = None \<rparr>,
                 mismatches = mismatch_reporter sc metas,
                 files = map file_rec metas,
                 duplicate_groups = duplicate_detector md5 sha256 sc fs metas,
                 erasable_candidates = cands \<rparr>"
proof -
  from root_at_Some [OF assms(1)] obtain expanded p where
    rt: "expanduser fs r = Inr expanded" "resolve fs expanded = Inr p"
        "exists fs p = Inr True" "os_walk fs p = walk rootp"
    by blast
  have "scan_dirs sc fs rt 0 (walk rootp) ([], [], None) = Inr (metas, [], None)"
    using assms(3,5)
    by (simp add: scan_dirs_no_psutil [OF assms(4)] resolved_plain [OF assms(2)] walked_def)
  with rt assms(6) show ?thesis
    by (simp add: scan_directory_def Let_def scan_stats_def)
qed

text \<open>The roots of the example trees.\<close>

lemma root_at_plain_fs: "root_at (plain_fs roots regfiles) r = Inr (map_of roots r)"
  by (simp add: root_at_def plain_fs_def)

lemma resolve_plain_fs: "resolve (plain_fs roots regfiles) = Inr"
  by (simp add: plain_fs_def)

lemma inode_plain_fs: "inode (plain_fs roots regfiles) = map_of regfiles"
  by (simp add: plain_fs_def)

section \<open>Counting the members of the buckets\<close>

lemma sum_list_insort_key:
  "sum_list (map g (insort_key k x xs)) = (g x :: nat) + sum_list (map g xs)"
  by (induction xs) auto

lemma sum_list_sort_key:
  "sum_list (map g (sort_key k xs)) = sum_list (map (g :: 'a \<Rightarrow> nat) xs)"
  by (induction xs) (auto simp: sum_list_insort_key)

lemma length_members: "length (members d) = sum_list (map (\<lambda>kv. length (snd kv)) d)"
  by (induction d) (auto simp: members_def)

lemma dup_out_count:
  "sum_list (map d_count (dup_out gs)) = length (members (multi gs))"
proof -
  have "sum_list (map d_count (dup_out gs))
      = sum_list (map d_count (map (\<lambda>(sha, grp).
                    \<lparr> d_sha256 = sha, d_total_size = m_size (hd grp) * length grp,
                      d_count = length grp, d_files = sort (map m_path grp) \<rparr>)
               (filter (\<lambda>(sha, grp). \<not> length grp < 2) gs)))"
    unfolding dup_out_def by (simp only: rev_map [symmetric] sum_list_rev sum_list_sort_key)
  also have "\<dots> = length (members (multi gs))"
    by (induction gs) (auto simp: multi_def members_def)
  finally show ?thesis .
qed

lemma by_size_length: "length (members (by_size metas)) \<le> length metas"
  unfolding by_size_grouping grouping_length by (simp add: members_def)

section \<open>The shape of a duplicate group\<close>

text \<open>
  Every duplicate group has two members or more, all with the digest of the group, and a
  total size that is the size of its first member times its count. With a chunk size
  other than 0 and a digest that tells the scanned contents apart, its members have one
  size.
\<close>

lemma duplicate_group_shape:
  assumes "g \<in> set (duplicate_detector md5 sha256 sc fs metas)"
  shows "2 \<le> d_count g \<and> length (d_files g) = d_count g
       \<and> (\<forall>p \<in> set (d_files g). stream_hash sha256 sc fs p = Inr (d_sha256 g))
       \<and> (\<exists>m \<in> set metas. m_path m \<in> set (d_files g) \<and> d_total_size g = m_size m * d_count g)"
proof -
  from dup_out_inv [OF assms [unfolded duplicate_detector_def]]
  obtain grp where grp: "(d_sha256 g, grp) \<in> set (groups sha256 sc fs (by_fp md5 fs (by_size metas)))"
    and len: "2 \<le> length grp" and tot: "d_total_size g = m_size (hd grp) * length grp"
    and cnt: "d_count g = length grp" and files: "d_files g = sort (map m_path grp)"
    by blast
  from len have ne: "grp \<noteq> []" by auto
  then have hd: "hd grp \<in> set grp" by simp
  then have "m_path (hd grp) \<in> set (d_files g)" using files by simp
  from duplicate_member [OF assms this] obtain m where
    "m \<in> set metas" "m_path m = m_path (hd grp)" by blast
  moreover from groups_inv [OF grp hd] obtain k b where
    "(k, b) \<in> set (by_fp md5 fs (by_size metas))" "hd grp \<in> set b" by blast
  from by_fp_inv [OF this] obtain sz sg where "(sz, sg) \<in> set (by_size metas)" "hd grp \<in> set sg"
    by blast
  from by_size_inv [OF this] have "hd grp \<in> set metas" by simp
  ultimately have "\<exists>m \<in> set metas. m_path m \<in> set (d_files g) \<and> d_total_size g = m_size m * d_count g"
    using tot cnt files hd by (intro bexI [of _ "hd grp"]) auto
  moreover have "\<forall>p \<in> set (d_files g). stream_hash sha256 sc fs p = Inr (d_sha256 g)"
    using duplicate_member [OF assms] by blast
  ultimately show ?thesis using len cnt files by simp
qed

lemma duplicate_group_same_size:
  assumes "g \<in> set (duplicate_detector md5 sha256 sc fs metas)"
    and "chunk sc \<noteq> 0" and "inj sha256"
    and "\<forall>m \<in> set metas. meta_of fs (m_path m) = Some m"
    and "p \<in> set (d_files g)" and "q \<in> set (d_files g)"
    and "m \<in> set metas" and "m_path m = p" and "n \<in> set metas" and "m_path n = q"
  shows "m_size m = m_size n"
proof -
  from duplicate_member [OF assms(1,5)] duplicate_member [OF assms(1,6)]
  have sh: "stream_hash sha256 sc fs p = Inr (d_sha256 g)" "stream_hash sha256 sc fs q = Inr (d_sha256 g)"
    by auto
  from assms(4,7,8) have mp: "meta_of fs p = Some m" by auto
  from assms(4,9,10) have nq: "meta_of fs q = Some n" by auto
  from sh(1) assms(2) obtain f where f: "inode fs p = Some f" "d_sha256 g = sha256 (content f)"
    by (auto simp: stream_hash_eq split: option.splits if_splits sum.splits)
  from sh(2) assms(2) obtain h where h: "inode fs q = Some h" "d_sha256 g = sha256 (content h)"
    by (auto simp: stream_hash_eq split: option.splits if_splits sum.splits)
  from f(2) h(2) have "sha256 (content f) = sha256 (content h)" by simp
  with assms(3) have "content f = content h" by (rule injD)
  moreover from mp f(1) have "m_size m = length (content f)" by (rule meta_of_size)
  moreover from nq h(1) have "m_size n = length (content h)" by (rule meta_of_size)
  ultimately show ?thesis by simp
qed

section \<open>Evaluating a scan\<close>

text \<open>The unfolding rules for each stage of a scan of a given tree.\<close>

lemmas path_eval =
  normalize_extensions_def suffixes_def path_name_def endswith_def startswith_def
  lower_def lower_char_def upper_def upper_char_def norm_container_def logical_map_def

lemmas io_eval =
  meta_of_def file_meta_def stat_def open_rb_def read_def sniff_header_def plain_file_def

lemmas dup_eval =
  duplicate_detector_def by_size_def by_fp_def fp_or_ERR_def sampled_fingerprint_def
  sampled_feed_eq groups_def stream_hash_eq read_def dup_out_def plain_file_def

lemmas mismatch_eval =
  mismatch_reporter_def List.map_filter_simps mismatch_of_def BIO_LOGICAL_def
  BIO_CONTAINERS_def upper_def upper_char_def norm_container_def

lemmas stem_eval =
  base_stem_def suffixes_def path_name_def endswith_def lower_def lower_char_def
  is_sep_def token_match_def TOKENS_def

lemmas rule_eval =
  erasable_group_def rule_sam_def rule_bam_def rule_sra_def rule_trimmed_def has_def
  has_sra_def fastqs_def is_container_def is_trimmed_def next_item_def endswith_def
  startswith_def upper_def upper_char_def lower_def lower_char_def path_name_def
  ALLOW_SAM_REGEN_def PREFER_SRA_OVER_FASTQ_def shlex_quote_def safe_char_def

subsection \<open>Paths of the example trees\<close>

lemma resolve_of_sample: "resolve fs_sample = Inr"
  by (simp add: fs_sample_def resolve_plain_fs)


lemma resolve_of_gzip_txt: "resolve fs_gzip_txt = Inr"
  by (simp add: fs_gzip_txt_def resolve_plain_fs)

lemma resolve_of_read_errors: "resolve fs_read_errors = Inr"
  by (simp add: fs_read_errors_def resolve_plain_fs)

lemma resolve_of_two_sizes: "resolve fs_two_sizes = Inr"
  by (simp add: fs_two_sizes_def resolve_plain_fs)

lemma resolve_of_fastq_named_sra: "resolve fs_fastq_named_sra = Inr"
  by (simp add: fs_fastq_named_sra_def resolve_plain_fs)

subsection \<open>The small tree\<close>

lemma metas_of_sample:
  "List.map_filter (meta_of fs_sample) (walked (Dir [File ''/d/s.sra'', File ''/d/s.fastq'',
      File ''/d/y.bam'', Dir [File ''/d/copy/s.fastq'']])) = metas_sample"
  by (simp add: walked_def List.map_filter_simps fs_sample_def plain_fs_def metas_sample_def io_eval path_eval Let_def)

lemma dups_of_sample:
  "duplicate_detector (\<lambda>b. b) (\<lambda>b. b) default_scanner fs_sample metas_sample
     = duplicate_groups report_sample"
  by (simp add: metas_sample_def report_sample_def fs_sample_def plain_fs_def default_scanner_def init_def dup_eval)

lemma mismatches_of_sample:
  "mismatch_reporter default_scanner metas_sample = mismatches report_sample"
  by (simp add: metas_sample_def report_sample_def default_scanner_def init_def mismatch_eval Let_def)

lemma by_sample_of_sample:
  "by_sample (map file_rec metas_sample) = [(''s'', map file_rec [metas_sample ! 0, metas_sample ! 1, metas_sample ! 3]), (''y'', [file_rec (metas_sample ! 2)])]"
  by (simp add: metas_sample_def by_sample_def file_rec_def stem_eval Let_def)

lemma candidates_of_sample:
  "erasability_reasoner (map file_rec metas_sample) = Inr (erasable_candidates report_sample)"
  unfolding erasability_reasoner_def by_sample_of_sample
  by (simp add: metas_sample_def report_sample_def file_rec_def rule_eval Let_def)

lemma scan_of_sample:
  "scan_directory (\<lambda>b. b) (\<lambda>b. b) default_scanner run_a fs_sample ''/d'' = Inr report_sample"
proof -
  have rn: "root_at fs_sample ''/d'' = Inr (Some (Dir [File ''/d/s.sra'', File ''/d/s.fastq'',
      File ''/d/y.bam'', Dir [File ''/d/copy/s.fastq'']]))"
    by (simp add: fs_sample_def root_at_plain_fs)
  have nc: "\<not> cancel default_scanner" by (simp add: default_scanner_def init_def)
  have np: "psutil run_a = None" by (simp add: run_a_def)
  show ?thesis
    unfolding scan_directory_no_psutil [OF rn resolve_of_sample nc np metas_of_sample candidates_of_sample]
      dups_of_sample mismatches_of_sample
    by (simp add: report_sample_def metas_sample_def run_a_def)
qed

subsection \<open>The tree with unreadable files\<close>







subsection \<open>The tree with two pairs of one size\<close>

lemma metas_of_pairs:
  "List.map_filter (meta_of fs_pairs) (walked (Dir [File ''/d/a1.txt'', File ''/d/a2.txt'',
      File ''/d/b1.txt'', File ''/d/b2.txt''])) = metas_pairs"
  by (simp add: walked_def List.map_filter_simps fs_pairs_def plain_fs_def metas_pairs_def meta_txt_def
        io_eval path_eval Let_def)

lemma by_size_of_pairs: "by_size metas_pairs = [(4, metas_pairs)]"
  by (simp add: by_size_def metas_pairs_def meta_txt_def)

lemma by_fp_of_pairs:
  "by_fp (\<lambda>b. b) fs_pairs [(4, metas_pairs)] =
     [((4, ''aaaa''), [meta_txt ''/d/a1.txt'' 4, meta_txt ''/d/a2.txt'' 4]),
      ((4, ''bbbb''), [meta_txt ''/d/b1.txt'' 4, meta_txt ''/d/b2.txt'' 4])]"
  by (simp add: by_fp_def metas_pairs_def meta_txt_def fp_or_ERR_def sampled_fingerprint_def
        sampled_feed_eq fs_pairs_def plain_fs_def plain_file_def)

lemma groups_of_pairs:
  "groups (\<lambda>b. b) default_scanner fs_pairs
     [((4, ''aaaa''), [meta_txt ''/d/a1.txt'' 4, meta_txt ''/d/a2.txt'' 4]),
      ((4, ''bbbb''), [meta_txt ''/d/b1.txt'' 4, meta_txt ''/d/b2.txt'' 4])] =
     [(''aaaa'', [meta_txt ''/d/a1.txt'' 4, meta_txt ''/d/a2.txt'' 4]),
      (''bbbb'', [meta_txt ''/d/b1.txt'' 4, meta_txt ''/d/b2.txt'' 4])]"
  by (simp add: groups_def meta_txt_def stream_hash_eq read_def fs_pairs_def plain_fs_def plain_file_def
        default_scanner_def init_def)

subsection \<open>The gzip stream named as text\<close>

lemma metas_of_gzip_txt:
  "List.map_filter (meta_of fs_gzip_txt) (walked (Dir [File ''/d/notes.txt''])) = metas_gzip_txt"
  by (simp add: walked_def fs_gzip_txt_def plain_fs_def metas_gzip_txt_def io_eval path_eval Let_def)

lemma dups_of_gzip_txt:
  "duplicate_detector (\<lambda>b. b) (\<lambda>b. b) default_scanner fs_gzip_txt metas_gzip_txt = []"
  by (simp add: metas_gzip_txt_def fs_gzip_txt_def plain_fs_def default_scanner_def init_def dup_eval)

lemma mismatches_of_gzip_txt:
  "mismatch_reporter default_scanner metas_gzip_txt = mismatches report_gzip_txt"
  by (simp add: metas_gzip_txt_def report_gzip_txt_def default_scanner_def init_def mismatch_eval Let_def)

lemma candidates_of_gzip_txt:
  "erasability_reasoner (map file_rec metas_gzip_txt) = Inr []"
  by (simp add: erasability_reasoner_def by_sample_def metas_gzip_txt_def file_rec_def rule_eval Let_def)

lemma scan_of_gzip_txt:
  "scan_directory (\<lambda>b. b) (\<lambda>b. b) default_scanner run_a fs_gzip_txt ''/d'' = Inr report_gzip_txt"
proof -
  have rn: "root_at fs_gzip_txt ''/d'' = Inr (Some (Dir [File ''/d/notes.txt'']))"
    by (simp add: fs_gzip_txt_def root_at_plain_fs)
  have nc: "\<not> cancel default_scanner" by (simp add: default_scanner_def init_def)
  have np: "psutil run_a = None" by (simp add: run_a_def)
  show ?thesis
    unfolding scan_directory_no_psutil [OF rn resolve_of_gzip_txt nc np metas_of_gzip_txt candidates_of_gzip_txt]
      dups_of_gzip_txt mismatches_of_gzip_txt
    by (simp add: report_gzip_txt_def metas_gzip_txt_def run_a_def)
qed

subsection \<open>The keys of the first tier\<close>

lemma by_fp_of_by_size_keys:
  assumes "(k, bucket) \<in> set (by_fp md5 fs (by_size metas))" and "m \<in> set bucket"
  shows "k = (m_size m, fp_or_ERR md5 fs m)"
proof -
  from by_fp_inv [OF assms] obtain sz grp where
    g: "(sz, grp) \<in> set (by_size metas)" "m \<in> set grp" and k: "k = (sz, fp_or_ERR md5 fs m)"
    by blast
  from by_size_inv [OF g] k show ?thesis by simp
qed

subsection \<open>The tree with read errors\<close>

lemma metas_of_read_errors:
  "List.map_filter (meta_of fs_read_errors) (walked (Dir [File ''/d/x1.bin'', File ''/d/x2.bin'']))
     = metas_read_errors"
  by (simp add: walked_def fs_read_errors_def plain_fs_def plain_file_def metas_read_errors_def meta_bin_def io_eval
        path_eval Let_def)

lemma by_size_of_read_errors: "by_size metas_read_errors = [(4, metas_read_errors)]"
  by (simp add: by_size_def metas_read_errors_def meta_bin_def)

lemma by_fp_of_read_errors:
  "by_fp md5 fs_read_errors [(4, metas_read_errors)] = [((4, ''ERR''), metas_read_errors)]"
  by (simp add: by_fp_def metas_read_errors_def meta_bin_def fp_or_ERR_def sampled_fingerprint_def
        sampled_feed_eq fs_read_errors_def plain_fs_def plain_file_def)

lemma groups_of_read_errors_zero_chunk:
  "groups sha256 zero_chunk_scanner fs_read_errors [((4, ''ERR''), metas_read_errors)]
     = [(sha256 [], metas_read_errors)]"
  by (simp add: groups_def metas_read_errors_def meta_bin_def stream_hash_eq read_def fs_read_errors_def plain_fs_def plain_file_def
        zero_chunk_scanner_def init_def)

lemma groups_of_read_errors:
  "groups sha256 default_scanner fs_read_errors [((4, ''ERR''), metas_read_errors)] = []"
  by (simp add: groups_def metas_read_errors_def meta_bin_def stream_hash_eq read_def fs_read_errors_def plain_fs_def plain_file_def
        default_scanner_def init_def)

lemma dups_of_read_errors_zero_chunk:
  "duplicate_detector md5 sha256 zero_chunk_scanner fs_read_errors metas_read_errors
     = [\<lparr> d_sha256 = sha256 [], d_total_size = 8, d_count = 2,
          d_files = [''/d/x1.bin'', ''/d/x2.bin''] \<rparr>]"
  unfolding duplicate_detector_def by_size_of_read_errors by_fp_of_read_errors
    groups_of_read_errors_zero_chunk
  by (simp add: dup_out_def metas_read_errors_def meta_bin_def)

lemma dups_of_read_errors:
  "duplicate_detector md5 sha256 default_scanner fs_read_errors metas_read_errors = []"
  unfolding duplicate_detector_def by_size_of_read_errors by_fp_of_read_errors groups_of_read_errors
  by (simp add: dup_out_def)

lemma mismatches_of_read_errors: "mismatch_reporter sc metas_read_errors = []"
  by (simp add: metas_read_errors_def meta_bin_def mismatch_eval Let_def)

lemma by_sample_of_read_errors:
  "by_sample (map file_rec metas_read_errors) =
     [(''x1'', [file_rec (meta_bin ''/d/x1.bin'' 4)]), (''x2'', [file_rec (meta_bin ''/d/x2.bin'' 4)])]"
  by (simp add: metas_read_errors_def meta_bin_def by_sample_def file_rec_def stem_eval Let_def)

lemma candidates_of_read_errors:
  "erasability_reasoner (map file_rec metas_read_errors) = Inr []"
  unfolding erasability_reasoner_def by_sample_of_read_errors
  by (simp add: meta_bin_def file_rec_def rule_eval Let_def)

lemma root_of_read_errors:
  "root_at fs_read_errors ''/d'' = Inr (Some (Dir [File ''/d/x1.bin'', File ''/d/x2.bin'']))"
  by (simp add: fs_read_errors_def root_at_plain_fs)

lemma scan_of_read_errors:
  "scan_directory (\<lambda>b. b) (\<lambda>b. b) default_scanner run_a fs_read_errors ''/d'' = Inr report_read_errors"
proof -
  have nc: "\<not> cancel default_scanner" by (simp add: default_scanner_def init_def)
  have np: "psutil run_a = None" by (simp add: run_a_def)
  show ?thesis
    unfolding scan_directory_no_psutil [OF root_of_read_errors resolve_of_read_errors nc np metas_of_read_errors
        candidates_of_read_errors] dups_of_read_errors mismatches_of_read_errors
    by (simp add: report_read_errors_def metas_read_errors_def run_a_def)
qed

lemma fingerprint_of_read_errors:
  "sampled_fingerprint md5 fs_read_errors ''/d/x1.bin'' = Inl OSError"
  by (simp add: sampled_fingerprint_def sampled_feed_eq fs_read_errors_def plain_fs_def plain_file_def)

subsection \<open>The tree with pairs of two sizes\<close>

lemma root_of_two_sizes:
  "root_at fs_two_sizes ''/d'' = Inr (Some (Dir [File ''/d/a1.txt'', File ''/d/a2.txt'',
      File ''/d/b1.txt'', File ''/d/b2.txt'']))"
  by (simp add: fs_two_sizes_def root_at_plain_fs)

lemma metas_of_two_sizes:
  "List.map_filter (meta_of fs_two_sizes) (walked (Dir [File ''/d/a1.txt'', File ''/d/a2.txt'',
      File ''/d/b1.txt'', File ''/d/b2.txt''])) = metas_two_sizes"
  by (simp add: walked_def fs_two_sizes_def plain_fs_def metas_two_sizes_def meta_txt_def io_eval path_eval Let_def)

lemma by_size_of_two_sizes:
  "by_size metas_two_sizes =
     [(1, [meta_txt ''/d/a1.txt'' 1, meta_txt ''/d/a2.txt'' 1]),
      (2, [meta_txt ''/d/b1.txt'' 2, meta_txt ''/d/b2.txt'' 2])]"
  by (simp add: by_size_def metas_two_sizes_def meta_txt_def)

lemma by_fp_of_two_sizes:
  "by_fp md5 fs_two_sizes
     [(1, [meta_txt ''/d/a1.txt'' 1, meta_txt ''/d/a2.txt'' 1]),
      (2, [meta_txt ''/d/b1.txt'' 2, meta_txt ''/d/b2.txt'' 2])] =
     [((1, md5 ''x''), [meta_txt ''/d/a1.txt'' 1, meta_txt ''/d/a2.txt'' 1]),
      ((2, md5 ''yy''), [meta_txt ''/d/b1.txt'' 2, meta_txt ''/d/b2.txt'' 2])]"
  by (simp add: by_fp_def meta_txt_def fp_or_ERR_def sampled_fingerprint_def
        sampled_feed_eq fs_two_sizes_def plain_fs_def plain_file_def)

lemma groups_of_two_sizes_zero_chunk:
  "groups sha256 zero_chunk_scanner fs_two_sizes
     [((1, md5 ''x''), [meta_txt ''/d/a1.txt'' 1, meta_txt ''/d/a2.txt'' 1]),
      ((2, md5 ''yy''), [meta_txt ''/d/b1.txt'' 2, meta_txt ''/d/b2.txt'' 2])] =
     [(sha256 [], metas_two_sizes)]"
  by (simp add: groups_def metas_two_sizes_def meta_txt_def stream_hash_eq read_def fs_two_sizes_def plain_fs_def
        plain_file_def zero_chunk_scanner_def init_def)

lemma dups_of_two_sizes_zero_chunk:
  "duplicate_detector md5 sha256 zero_chunk_scanner fs_two_sizes metas_two_sizes
     = [\<lparr> d_sha256 = sha256 [], d_total_size = 4, d_count = 4,
          d_files = [''/d/a1.txt'', ''/d/a2.txt'', ''/d/b1.txt'', ''/d/b2.txt''] \<rparr>]"
  unfolding duplicate_detector_def by_size_of_two_sizes by_fp_of_two_sizes
    groups_of_two_sizes_zero_chunk
  by (simp add: dup_out_def metas_two_sizes_def meta_txt_def)

lemma by_sample_of_two_sizes:
  "by_sample (map file_rec metas_two_sizes) =
     [(''a1'', [file_rec (meta_txt ''/d/a1.txt'' 1)]), (''a2'', [file_rec (meta_txt ''/d/a2.txt'' 1)]),
      (''b1'', [file_rec (meta_txt ''/d/b1.txt'' 2)]), (''b2'', [file_rec (meta_txt ''/d/b2.txt'' 2)])]"
proof -
  have "base_stem ''/d/a1.txt'' = ''a1''" "base_stem ''/d/a2.txt'' = ''a2''"
    "base_stem ''/d/b1.txt'' = ''b1''" "base_stem ''/d/b2.txt'' = ''b2''"
    by (simp_all add: stem_eval Let_def)
  then show ?thesis
    by (simp add: metas_two_sizes_def meta_txt_def by_sample_def file_rec_def)
qed

lemma candidates_of_two_sizes:
  "erasability_reasoner (map file_rec metas_two_sizes) = Inr []"
  unfolding erasability_reasoner_def by_sample_of_two_sizes
  by (simp add: meta_txt_def file_rec_def rule_eval Let_def)

subsection \<open>The FASTQ file named as SRA\<close>

lemma root_of_fastq_named_sra:
  "root_at fs_fastq_named_sra ''/d'' = Inr (Some (Dir [File ''/d/s.sra'']))"
  by (simp add: fs_fastq_named_sra_def root_at_plain_fs)

lemma metas_of_fastq_named_sra:
  "List.map_filter (meta_of fs_fastq_named_sra) (walked (Dir [File ''/d/s.sra'']))
     = metas_fastq_named_sra"
  by (simp add: walked_def fs_fastq_named_sra_def plain_fs_def metas_fastq_named_sra_def io_eval path_eval Let_def)

lemma candidates_of_fastq_named_sra:
  "erasability_reasoner (map file_rec metas_fastq_named_sra) =
     Inr [\<lparr> c_path = ''/d/s.sra'',
             c_reason = ''SRA redundant when gzipped FASTQ is retained locally'',
             c_fidelity = ''content-equivalent (tool-dependent container)'',
             c_depends_on = [''/d/s.sra''],
             c_regen_cmd = ''n/a (keep FASTQ as canonical raw layer)'' \<rparr>]"
  by (simp add: erasability_reasoner_def by_sample_def metas_fastq_named_sra_def file_rec_def
        rule_eval Let_def)

text \<open>What the third rule gives for a group with an SRA file and a FASTQ file: one
  candidate, for the first SRA file, depending on every FASTQ file of the group. That
  file is itself among the FASTQ files exactly when its header or logical extension
  says FASTQ.\<close>

lemma rule_sra_default:
  assumes "list_ex has_sra items" and "fastqs items \<noteq> []"
  shows "\<exists>sra. find has_sra items = Some sra
           \<and> rule_sra items =
               Inr [\<lparr> c_path = r_path sra,
                       c_reason = ''SRA redundant when gzipped FASTQ is retained locally'',
                       c_fidelity = ''content-equivalent (tool-dependent container)'',
                       c_depends_on = map r_path (fastqs items),
                       c_regen_cmd = ''n/a (keep FASTQ as canonical raw layer)'' \<rparr>]
           \<and> (sra \<in> set (fastqs items) \<longleftrightarrow> has sra ''FASTQ'')"
proof -
  from assms(1) obtain sra where s: "find has_sra items = Some sra"
    by (cases "find has_sra items") (auto simp: find_None_iff list_ex_iff)
  then have "sra \<in> set items" by (auto simp: find_Some_iff)
  then have "sra \<in> set (fastqs items) \<longleftrightarrow> has sra ''FASTQ''" by (simp add: fastqs_def)
  with s assms show ?thesis
    by (simp add: rule_sra_def next_item_def PREFER_SRA_OVER_FASTQ_def)
qed

section \<open>The scan root\<close>

text \<open>A root that does not exist is the one error the scan raises itself; what expanding
  the root, resolving it or looking for it raises ends the scan as well.\<close>

lemma scan_of_missing_root:
  "root_at fs r = Inr None \<Longrightarrow> scan_directory md5 sha256 sc rt fs r = Inl FileNotFoundError"
  by (rule scan_directory_root_missing)

lemma scan_of_unresolvable_root:
  "resolve fs r = Inl e \<Longrightarrow> expanduser fs r = Inr r \<Longrightarrow>
     scan_directory md5 sha256 sc rt fs r = Inl e"
  by (simp add: scan_directory_def)

text \<open>
  Claim C1 says that a root which exists but is a regular file makes the scan fail with
  RootMissing. The scan only tests that the root exists: on a regular file the walk yields
  nothing and the scan returns the empty report.
\<close>

theorem scan_of_regular_file_root:
  assumes "root_at fs r = Inr (Some (File p))"
  shows "scan_directory md5 sha256 sc rt fs r =
           Inr \<lparr> n_files = 0, stats = scan_stats rt [] None, mismatches = [], files = [],
                 duplicate_groups = [], erasable_candidates = [] \<rparr>"
proof -
  from root_at_Some [OF assms] obtain expanded q where
    "expanduser fs r = Inr expanded" "resolve fs expanded = Inr q"
    "exists fs q = Inr True" "os_walk fs q = walk (File p)"
    by blast
  then show ?thesis
    by (simp add: scan_directory_def duplicate_detector_def by_size_def by_fp_def groups_def
          dup_out_def mismatch_reporter_def erasability_reasoner_def by_sample_def
          List.map_filter_simps)
qed

theorem scan_of_regular_file_root_witness:
  "root_at fs_file_root ''/data/reads.fastq'' = Inr (Some (File ''/data/reads.fastq'')) \<and>
   scan_directory (\<lambda>b. b) (\<lambda>b. b) default_scanner run_a fs_file_root ''/data/reads.fastq'' =
     Inr \<lparr> n_files = 0,
           stats = \<lparr> wall_clock_s = 1, cpu_avg = None, cpu_peak = None, peak_rss_mb = None \<rparr>,
           mismatches = [], files = [], duplicate_groups = [], erasable_candidates = [] \<rparr>"
proof -
  have h: "root_at fs_file_root ''/data/reads.fastq'' = Inr (Some (File ''/data/reads.fastq''))"
    by (simp add: fs_file_root_def root_at_plain_fs)
  show ?thesis
    using h scan_of_regular_file_root [OF h, of "\<lambda>b. b" "\<lambda>b. b" default_scanner run_a]
    by (simp add: scan_stats_def run_a_def)
qed

section \<open>Files that cannot be read\<close>




section \<open>The tier cascade\<close>

text \<open>
  Claim C3 says that the number of buckets with two members or more does not grow from
  tier to tier. It fails: a tier splits buckets. Four files of one size, two with one
  content and two with another, are one size bucket, two fingerprint buckets and two
  duplicate groups, for digests that tell the two contents apart.
\<close>

theorem tier_counts_not_monotone:
  "List.map_filter (meta_of fs_pairs) (walked (Dir [File ''/d/a1.txt'', File ''/d/a2.txt'',
      File ''/d/b1.txt'', File ''/d/b2.txt''])) = metas_pairs
   \<and> length (multi (by_size metas_pairs)) = 1
   \<and> length (multi (by_fp (\<lambda>b. b) fs_pairs (by_size metas_pairs))) = 2
   \<and> length (multi (groups (\<lambda>b. b) default_scanner fs_pairs
               (by_fp (\<lambda>b. b) fs_pairs (by_size metas_pairs)))) = 2
   \<and> length (duplicate_detector (\<lambda>b. b) (\<lambda>b. b) default_scanner fs_pairs metas_pairs) = 2
   \<and> \<not> (length (multi (by_fp (\<lambda>b. b) fs_pairs (by_size metas_pairs)))
          \<le> length (multi (by_size metas_pairs)))"
  unfolding duplicate_detector_def by_size_of_pairs by_fp_of_pairs groups_of_pairs
  by (simp add: metas_of_pairs multi_def metas_pairs_def dup_out_def)

text \<open>
  Claim C3, amended: the cascade is monotone in the files that survive, not in the number
  of buckets. The files in the duplicate groups of the report are the members of the
  digest buckets with two members or more; they are at most as many as the members of
  the fingerprint buckets with two members or more, which are at most as many as the
  members of the size buckets with two members or more, which are at most as many as the
  files of the table.
\<close>

theorem tier_cascade_on_files:
  "sum_list (map d_count (duplicate_detector md5 sha256 sc fs metas))
     = length (members (multi (groups sha256 sc fs (by_fp md5 fs (by_size metas)))))
   \<and> length (members (multi (groups sha256 sc fs (by_fp md5 fs (by_size metas)))))
       \<le> length (members (multi (by_fp md5 fs (by_size metas))))
   \<and> length (members (multi (by_fp md5 fs (by_size metas))))
       \<le> length (members (multi (by_size metas)))
   \<and> length (members (multi (by_size metas))) \<le> length metas"
proof -
  let ?S = "by_size metas"
  let ?F = "by_fp md5 fs ?S"
  let ?G = "groups sha256 sc fs ?F"
  have "length (members (multi ?G)) \<le> length (members ?G)" by (rule length_members_multi)
  also have "\<dots> \<le> length (members (multi ?F))" by (rule groups_length)
  finally have 1: "length (members (multi ?G)) \<le> length (members (multi ?F))" .
  have "length (members (multi ?F)) \<le> length (members ?F)" by (rule length_members_multi)
  also have "\<dots> \<le> length (members (multi ?S))" by (rule by_fp_length)
  finally have 2: "length (members (multi ?F)) \<le> length (members (multi ?S))" .
  have "length (members (multi ?S)) \<le> length (members ?S)" by (rule length_members_multi)
  also have "\<dots> \<le> length metas" by (rule by_size_length)
  finally have 3: "length (members (multi ?S)) \<le> length metas" .
  from 1 2 3 show ?thesis by (simp add: duplicate_detector_def dup_out_count)
qed

section \<open>Files whose sampled fingerprint fails\<close>

text \<open>
  A file whose sampled fingerprint fails is placed, with the other such files of its
  size, in the bucket keyed by that size and \<^verbatim>\<open>"ERR"\<close>. The second tier does not drop
  that bucket: it hashes its members like those of any bucket with two members or more,
  and a file is left out only if its streaming digest fails as well. On a tree that does
  not change it does fail, unless the chunk size of the scanner is 0; so for every other
  chunk size the file is a member of no duplicate group. The tree with two files whose
  reads fail, scanned with the default chunk size, is an instance.
\<close>

lemma failed_fingerprint_bucket:
  assumes "scan_directory md5 sha256 sc rt fs r = Inr rep"
    and "isl (sampled_fingerprint md5 fs p)"
  shows "(\<forall>metas sz grp m.
            (sz, grp) \<in> set (by_size metas) \<and> 2 \<le> length grp \<and> m \<in> set grp \<and> m_path m = p
            \<longrightarrow> (\<exists>bucket. ((sz, ''ERR''), bucket) \<in> set (by_fp md5 fs (by_size metas))
                          \<and> m \<in> set bucket))
       \<and> (chunk sc \<noteq> 0 \<longrightarrow> p \<notin> set (concat (map d_files (duplicate_groups rep))))"
proof -
  have err: "fp_or_ERR md5 fs m = ''ERR''" if "m_path m = p" for m
    using assms(2) that by (auto simp: fp_or_ERR_def split: sum.splits)
  have 1: "\<exists>bucket. ((sz, ''ERR''), bucket) \<in> set (by_fp md5 fs (by_size metas)) \<and> m \<in> set bucket"
    if "(sz, grp) \<in> set (by_size metas)" "2 \<le> length grp" "m \<in> set grp" "m_path m = p"
    for metas sz grp m
    using by_fp_places [OF that(1,2,3), of md5 fs] err [OF that(4)] by simp
  have 2: "p \<notin> set (concat (map d_files (duplicate_groups rep)))" if nz: "chunk sc \<noteq> 0"
  proof
    assume "p \<in> set (concat (map d_files (duplicate_groups rep)))"
    then obtain g where g: "g \<in> set (duplicate_groups rep)" "p \<in> set (d_files g)" by auto
    from scan_directory_fields [OF assms(1)] obtain metas where
      "duplicate_groups rep = duplicate_detector md5 sha256 sc fs metas" by blast
    with g duplicate_member [of g md5 sha256 sc fs metas p]
    have "stream_hash sha256 sc fs p = Inr (d_sha256 g)" by auto
    with sampled_failure_is_stream_failure [OF assms(2) nz, of sha256] show False by simp
  qed
  from 1 2 show ?thesis by blast
qed

lemma failed_fingerprint_bucket_default_chunk:
  "scan_directory (\<lambda>b. b) (\<lambda>b. b) default_scanner run_a fs_read_errors ''/d'' = Inr report_read_errors
   \<and> sampled_fingerprint (\<lambda>b. b) fs_read_errors ''/d/x1.bin'' = Inl OSError
   \<and> chunk default_scanner \<noteq> 0
   \<and> by_fp (\<lambda>b. b) fs_read_errors (by_size metas_read_errors) = [((4, ''ERR''), metas_read_errors)]
   \<and> meta_bin ''/d/x1.bin'' 4 \<in> set metas_read_errors
   \<and> ''/d/x1.bin'' \<notin> set (concat (map d_files (duplicate_groups report_read_errors)))"
proof -
  have fp: "isl (sampled_fingerprint (\<lambda>b. b) fs_read_errors ''/d/x1.bin'')"
    by (simp add: fingerprint_of_read_errors)
  have nz: "chunk default_scanner \<noteq> 0" by (simp add: default_scanner_def init_def)
  note t = failed_fingerprint_bucket [OF scan_of_read_errors fp]
  from conjunct2 [OF t] nz
  have "''/d/x1.bin'' \<notin> set (concat (map d_files (duplicate_groups report_read_errors)))"
    by (rule mp)
  moreover have "by_fp (\<lambda>b. b) fs_read_errors (by_size metas_read_errors) = [((4, ''ERR''), metas_read_errors)]"
    unfolding by_size_of_read_errors by_fp_of_read_errors ..
  moreover have "meta_bin ''/d/x1.bin'' 4 \<in> set metas_read_errors"
    by (simp add: metas_read_errors_def)
  ultimately show ?thesis
    using scan_of_read_errors fingerprint_of_read_errors [of "\<lambda>b. b"] nz by blast
qed

text \<open>
  Claim C4 says that a file whose sampled fingerprint fails goes to the bucket \<^verbatim>\<open>"ERR"\<close>
  and can be in no duplicate group. The scanner accepts a chunk size of 0, and then the
  streaming digest reads nothing and cannot fail on a read: the two files of the bucket
  \<^verbatim>\<open>"ERR"\<close>, whose reads fail and whose contents differ, both get the digest of the empty
  input and are reported as duplicates of each other.
\<close>

theorem failed_fingerprints_reported_as_duplicates:
  "sampled_fingerprint (\<lambda>b. b) fs_read_errors ''/d/x1.bin'' = Inl OSError
   \<and> map_sum id duplicate_groups
        (scan_directory (\<lambda>b. b) (\<lambda>b. b) zero_chunk_scanner run_a fs_read_errors ''/d'')
      = Inr [\<lparr> d_sha256 = [], d_total_size = 8, d_count = 2,
                d_files = [''/d/x1.bin'', ''/d/x2.bin''] \<rparr>]"
proof -
  have nc: "\<not> cancel zero_chunk_scanner" by (simp add: zero_chunk_scanner_def init_def)
  have np: "psutil run_a = None" by (simp add: run_a_def)
  show ?thesis
    unfolding scan_directory_no_psutil [OF root_of_read_errors resolve_of_read_errors nc np metas_of_read_errors
        candidates_of_read_errors] dups_of_read_errors_zero_chunk
    by (simp add: fingerprint_of_read_errors)
qed

section \<open>Duplicate groups\<close>

text \<open>
  Claim C5 says that in every duplicate group the count is at least 2, the members have
  one size and one streaming digest, and the total size is the size of a member times the
  count. The scanner accepts a chunk size of 0, and then \<^verbatim>\<open>stream_hash\<close> reads nothing:
  its first read returns no bytes, which the loop takes for the end of the file, so every
  file gets the digest of the empty input. Two one-byte files and two two-byte files are
  reported as one group of four, with a total size of 4, whatever the digest functions
  are. For a chunk size other than 0 the claim is \<open>duplicate_group_shape\<close> and
  \<open>duplicate_group_same_size\<close> above.
\<close>

theorem zero_chunk_groups_files_of_different_sizes:
  "map_sum id (\<lambda>rep. (map (\<lambda>x. (r_path x, r_size x)) (files rep), duplicate_groups rep))
     (scan_directory md5 sha256 (init True 0 False) run_a fs_two_sizes ''/d'')
   = Inr ([(''/d/a1.txt'', 1), (''/d/a2.txt'', 1), (''/d/b1.txt'', 2), (''/d/b2.txt'', 2)],
          [\<lparr> d_sha256 = sha256 [], d_total_size = 4, d_count = 4,
              d_files = [''/d/a1.txt'', ''/d/a2.txt'', ''/d/b1.txt'', ''/d/b2.txt''] \<rparr>])"
proof -
  have nc: "\<not> cancel zero_chunk_scanner" by (simp add: zero_chunk_scanner_def init_def)
  have np: "psutil run_a = None" by (simp add: run_a_def)
  show ?thesis
    unfolding zero_chunk_scanner_def [symmetric]
      scan_directory_no_psutil [OF root_of_two_sizes resolve_of_two_sizes nc np metas_of_two_sizes
        candidates_of_two_sizes] dups_of_two_sizes_zero_chunk
    by (simp add: metas_two_sizes_def meta_txt_def file_rec_def)
qed

section \<open>The bio filter of the mismatch reporter\<close>

text \<open>
  Claim C6 says that, unless the caller asks for the other mismatches, an emitted record
  has a header type among the seven sequence formats, or a logical extension among them,
  or a container extension among GZIP and BGZF, so that a gzip stream under a name with
  neither is never emitted. It fails: the filter also lets a header through that is one of
  the containers. The gzip stream \<^verbatim>\<open>/d/notes.txt\<close> is reported.
\<close>

theorem gzip_header_plain_name_is_reported:
  "\<not> include_non_bio_mismatches default_scanner
   \<and> scan_directory (\<lambda>b. b) (\<lambda>b. b) default_scanner run_a fs_gzip_txt ''/d'' = Inr report_gzip_txt
   \<and> mismatches report_gzip_txt =
        [\<lparr> mm_path = ''/d/notes.txt'', mm_extension = ''TXT'', mm_extension_container = '''',
            mm_extension_logical = '''', mm_header_type = ''GZIP'' \<rparr>]
   \<and> ''GZIP'' \<notin> BIO_LOGICAL \<and> '''' \<notin> BIO_LOGICAL \<and> '''' \<notin> BIO_CONTAINERS"
  using scan_of_gzip_txt
  by (simp add: default_scanner_def init_def report_gzip_txt_def BIO_LOGICAL_def BIO_CONTAINERS_def)

text \<open>
  Claim C6, amended: unless the caller asks for the other mismatches, an emitted record
  has a header type among the seven sequence formats or the two containers, or a logical
  extension among the seven formats, or a container extension among the two containers;
  and a file whose header is GZIP and whose name has no container extension is always
  emitted.
\<close>

theorem mismatch_bio_filter:
  assumes "scan_directory md5 sha256 sc rt fs r = Inr rep"
    and "\<not> include_non_bio_mismatches sc"
  shows "(\<forall>rc \<in> set (mismatches rep).
            mm_header_type rc \<in> BIO_LOGICAL \<union> BIO_CONTAINERS
            \<or> mm_extension_logical rc \<in> BIO_LOGICAL
            \<or> mm_extension_container rc \<in> BIO_CONTAINERS)
       \<and> (\<forall>x \<in> set (files rep).
            upper (r_header_type x) = ''GZIP''
              \<and> norm_container (r_extension_container x) \<notin> BIO_CONTAINERS
            \<longrightarrow> r_path x \<in> mm_path ` set (mismatches rep))"
proof -
  from scan_directory_fields [OF assms(1)] obtain metas where
    mm: "mismatches rep = mismatch_reporter sc metas"
    and fl: "files rep = map file_rec metas"
    by blast
  have 1: "mm_header_type rc \<in> BIO_LOGICAL \<union> BIO_CONTAINERS
            \<or> mm_extension_logical rc \<in> BIO_LOGICAL
            \<or> mm_extension_container rc \<in> BIO_CONTAINERS" if "rc \<in> set (mismatches rep)" for rc
  proof -
    from that mm have "rc \<in> set (mismatch_reporter sc metas)" by simp
    from mismatch_reporter_inv [OF this] obtain m where "mismatch_of sc m = Some rc" by blast
    with assms(2) show ?thesis
      by (auto simp: mismatch_of_def Let_def split: if_splits)
  qed
  have 2: "r_path x \<in> mm_path ` set (mismatches rep)"
    if "x \<in> set (files rep)" "upper (r_header_type x) = ''GZIP''"
       "norm_container (r_extension_container x) \<notin> BIO_CONTAINERS" for x
  proof -
    from that(1) fl obtain m where m: "m \<in> set metas" "x = file_rec m" by auto
    with that(2,3) have "mismatch_of sc m =
        Some \<lparr> mm_path = m_path m, mm_extension = m_ext_full m,
               mm_extension_container = norm_container (m_ext_container m),
               mm_extension_logical = upper (m_ext_logical m), mm_header_type = ''GZIP'' \<rparr>"
      by (simp add: mismatch_of_def Let_def file_rec_def BIO_CONTAINERS_def)
    with m(1) have "\<lparr> mm_path = m_path m, mm_extension = m_ext_full m,
               mm_extension_container = norm_container (m_ext_container m),
               mm_extension_logical = upper (m_ext_logical m), mm_header_type = ''GZIP'' \<rparr>
          \<in> set (mismatch_reporter sc metas)"
      by (force simp: mismatch_reporter_def List.map_filter_def image_iff)
    then have "m_path m \<in> mm_path ` set (mismatches rep)"
      unfolding mm by force
    with m(2) show ?thesis by (simp add: file_rec_def)
  qed
  from 1 2 show ?thesis by blast
qed

theorem mismatch_bio_filter_witness:
  "scan_directory (\<lambda>b. b) (\<lambda>b. b) default_scanner run_a fs_gzip_txt ''/d'' = Inr report_gzip_txt
   \<and> \<not> include_non_bio_mismatches default_scanner
   \<and> map mm_header_type (mismatches report_gzip_txt) = [''GZIP'']
   \<and> ''GZIP'' \<in> BIO_LOGICAL \<union> BIO_CONTAINERS
   \<and> map (\<lambda>x. (r_path x, r_header_type x, r_extension_container x)) (files report_gzip_txt)
        = [(''/d/notes.txt'', ''GZIP'', [])]
   \<and> ''/d/notes.txt'' \<in> mm_path ` set (mismatches report_gzip_txt)"
proof -
  have ni: "\<not> include_non_bio_mismatches default_scanner"
    by (simp add: default_scanner_def init_def)
  have hd: "map mm_header_type (mismatches report_gzip_txt) = [''GZIP'']"
    and fl: "map (\<lambda>x. (r_path x, r_header_type x, r_extension_container x)) (files report_gzip_txt)
        = [(''/d/notes.txt'', ''GZIP'', [])]"
    by (simp_all add: report_gzip_txt_def metas_gzip_txt_def file_rec_def)
  have nc: "norm_container [] \<notin> BIO_CONTAINERS" "upper ''GZIP'' = ''GZIP''"
    by (simp_all add: norm_container_def upper_def upper_char_def BIO_CONTAINERS_def)
  from mismatch_bio_filter [OF scan_of_gzip_txt ni] nc
  have "''/d/notes.txt'' \<in> mm_path ` set (mismatches report_gzip_txt)"
    by (simp add: report_gzip_txt_def metas_gzip_txt_def file_rec_def)
  moreover have "''GZIP'' \<in> BIO_LOGICAL \<union> BIO_CONTAINERS" by (simp add: BIO_CONTAINERS_def)
  ultimately show ?thesis using scan_of_gzip_txt ni hd fl by simp
qed

section \<open>Two runs over one tree\<close>

text \<open>
  Claim C7 says that two scans of an unchanged tree give the same report, the statistics
  included. It fails: the statistics hold the elapsed time, read from the clock. Two runs
  over the same tree whose clock readings differ give reports that differ, and so do
  their serializations.
\<close>

theorem timing_differs_between_runs:
  "scan_directory (\<lambda>b. b) (\<lambda>b. b) default_scanner run_a fs_sample ''/d''
     \<noteq> scan_directory (\<lambda>b. b) (\<lambda>b. b) default_scanner run_b fs_sample ''/d''"
proof -
  have rn: "root_at fs_sample ''/d'' = Inr (Some (Dir [File ''/d/s.sra'', File ''/d/s.fastq'',
      File ''/d/y.bam'', Dir [File ''/d/copy/s.fastq'']]))"
    by (simp add: fs_sample_def root_at_plain_fs)
  have nc: "\<not> cancel default_scanner" by (simp add: default_scanner_def init_def)
  have pa: "psutil run_a = None" and pb: "psutil run_b = None"
    by (simp_all add: run_a_def run_b_def)
  show ?thesis
    unfolding scan_directory_no_psutil [OF rn resolve_of_sample nc pa metas_of_sample candidates_of_sample]
      scan_directory_no_psutil [OF rn resolve_of_sample nc pb metas_of_sample candidates_of_sample]
    by (simp add: run_a_def run_b_def)
qed

text \<open>
  Claim C7, amended: two scans of an unchanged tree by the same scanner fail alike or
  give reports that agree in every part but the statistics: the number of files, the
  mismatches, the files, the duplicate groups and the erasable candidates do not depend on
  what the run measures.
\<close>

theorem report_determined_up_to_stats:
  "(\<exists>e. scan_directory md5 sha256 sc rt1 fs r = Inl e
      \<and> scan_directory md5 sha256 sc rt2 fs r = Inl e)
   \<or> (\<exists>rep1 rep2.
         scan_directory md5 sha256 sc rt1 fs r = Inr rep1
       \<and> scan_directory md5 sha256 sc rt2 fs r = Inr rep2
       \<and> n_files rep1 = n_files rep2
       \<and> mismatches rep1 = mismatches rep2
       \<and> files rep1 = files rep2
       \<and> duplicate_groups rep1 = duplicate_groups rep2
       \<and> erasable_candidates rep1 = erasable_candidates rep2)"
proof (cases "root_at fs r")
  case (Inl e)
  then show ?thesis by (simp add: scan_directory_root_error)
next
  case (Inr found)
  show ?thesis
  proof (cases found)
    case None
    with Inr show ?thesis by (simp add: scan_directory_root_missing)
  next
    case (Some rootp)
    with Inr have rp: "root_at fs r = Inr (Some rootp)" by simp
    show ?thesis
    proof (cases "table sc fs rootp")
      case (Inl e)
      from scan_directory_aborts [OF rp Inl] show ?thesis by simp
    next
      case (Inr metas)
      from scan_directory_total [OF rp Inr, of md5 sha256 rt1] obtain rep1 where
        1: "scan_directory md5 sha256 sc rt1 fs r = Inr rep1" by blast
      from scan_directory_total [OF rp Inr, of md5 sha256 rt2] obtain rep2 where
        2: "scan_directory md5 sha256 sc rt2 fs r = Inr rep2" by blast
      from scan_directory_fields [OF 1] scan_directory_fields [OF 2] rp
      have "n_files rep1 = n_files rep2 \<and> mismatches rep1 = mismatches rep2
           \<and> files rep1 = files rep2 \<and> duplicate_groups rep1 = duplicate_groups rep2
           \<and> erasable_candidates rep1 = erasable_candidates rep2"
        by auto
      with 1 2 show ?thesis by blast
    qed
  qed
qed

section \<open>SRA against FASTQ\<close>

text \<open>
  Claim C8 says that for a sample group with an SRA file and a FASTQ file the third rule,
  under the default policy, proposes the SRA file once, depending on the FASTQ files that
  are kept, and proposes no FASTQ file. The rule takes a file for SRA by the end of its
  extension and for FASTQ by its header or logical extension, and does not keep the two
  apart (\<open>rule_sra_default\<close> above): a FASTQ file stored as \<^verbatim>\<open>s.sra\<close> is proposed for
  deletion, with itself as the file it depends on.
\<close>

theorem fastq_named_sra_is_proposed:
  "\<not> PREFER_SRA_OVER_FASTQ
   \<and> map_sum id (\<lambda>rep. (map (\<lambda>x. (r_path x, r_header_type x, r_extension x, has x ''FASTQ'')) (files rep),
                         map (\<lambda>c. (c_path c, c_depends_on c)) (erasable_candidates rep)))
        (scan_directory md5 sha256 default_scanner run_a fs_fastq_named_sra ''/d'')
      = Inr ([(''/d/s.sra'', ''FASTQ'', ''SRA'', True)], [(''/d/s.sra'', [''/d/s.sra''])])"
proof -
  have nc: "\<not> cancel default_scanner" by (simp add: default_scanner_def init_def)
  have np: "psutil run_a = None" by (simp add: run_a_def)
  show ?thesis
    unfolding scan_directory_no_psutil [OF root_of_fastq_named_sra resolve_of_fastq_named_sra nc np metas_of_fastq_named_sra
        candidates_of_fastq_named_sra]
    by (simp add: metas_fastq_named_sra_def file_rec_def has_def PREFER_SRA_OVER_FASTQ_def)
qed

section \<open>What the sampled fingerprint hashes\<close>

text \<open>The hash of the older scanner, for a readable file of at most two chunks: the
  decimal size, then the content.\<close>

lemma get_file_hash_small:
  assumes "inode fs p = Some f" and "open_ok f" and "read_ok f"
    and "length (content f) \<le> 131072"
  shows "get_file_hash md5 fs p = Some (md5 (decimal (length (content f)) @ content f))"
  using assms by (simp add: get_file_hash_def stat_def open_rb_def stream_feed_eq read_def)

text \<open>
  Claim C9 says that the sampled fingerprint is computed with the size of the file
  prepended to the hash input, before the windows, and that the first tier keys on size
  and fingerprint. The first part fails: \<^verbatim>\<open>sampled_fingerprint\<close> reads the size only to
  place the windows. For a file holding the one byte \<^verbatim>\<open>A\<close> the hash input is \<^verbatim>\<open>A\<close>, not
  \<^verbatim>\<open>1A\<close>; it is the older scanner's \<^verbatim>\<open>get_file_hash\<close> that hashes \<^verbatim>\<open>1A\<close>.
\<close>

theorem size_is_not_hashed:
  "stat fs_one_byte ''/d/a.txt'' = Inr (1, 0)
   \<and> sampled_feed fs_one_byte ''/d/a.txt'' = Inr ''A''
   \<and> size_prefixed_feed fs_one_byte ''/d/a.txt'' = Inr ''1A''
   \<and> sampled_feed fs_one_byte ''/d/a.txt'' \<noteq> size_prefixed_feed fs_one_byte ''/d/a.txt''
   \<and> sampled_fingerprint (\<lambda>b. b) fs_one_byte ''/d/a.txt'' = Inr ''A''
   \<and> get_file_hash (\<lambda>b. b) fs_one_byte ''/d/a.txt'' = Some ''1A''"
proof -
  have "get_file_hash (\<lambda>b. b) fs_one_byte ''/d/a.txt'' = Some ''1A''"
    using get_file_hash_small [of fs_one_byte "''/d/a.txt''" "plain_file ''A''" "\<lambda>b. b"]
    by (simp add: fs_one_byte_def plain_fs_def plain_file_def decimal.simps [of "Suc 0"])
  then show ?thesis
    by (simp add: size_prefixed_feed_def sampled_fingerprint_def sampled_feed_eq stat_def
          fs_one_byte_def plain_fs_def plain_file_def decimal.simps [of "Suc 0"])
qed

text \<open>
  Claim C9, amended: the sampled fingerprint of a readable file is the digest of its
  head, middle and last windows alone, the size not being part of the hash input; and
  every file in a bucket of the first tier is there under the key made of its size and
  its fingerprint.
\<close>

theorem fingerprint_of_windows_keyed_with_size:
  "sampled_fingerprint md5 fs p =
     (case inode fs p of
        None \<Rightarrow> Inl OSError
      | Some f \<Rightarrow>
          if \<not> open_ok f \<or> \<not> read_ok f then Inl OSError
          else Inr (md5 (take 65536 (content f)
                    @ (if length (content f) \<ge> 196608
                       then take 65536 (drop (length (content f) div 2 - 32768) (content f)) else [])
                    @ (if length (content f) \<ge> 65536
                       then take 65536 (drop (length (content f) - 65536) (content f)) else []))))
   \<and> (\<forall>k bucket m. (k, bucket) \<in> set (by_fp md5 fs (by_size metas)) \<longrightarrow> m \<in> set bucket
         \<longrightarrow> k = (m_size m, fp_or_ERR md5 fs m))"
  using by_fp_of_by_size_keys [of _ _ md5 fs metas]
  by (auto simp: sampled_fingerprint_def sampled_feed_eq split: option.splits)

theorem fingerprint_of_windows_keyed_with_size_witness:
  "sampled_fingerprint (\<lambda>b. b) fs_pairs ''/d/a1.txt'' = Inr ''aaaa''
   \<and> ((4, ''aaaa''), [meta_txt ''/d/a1.txt'' 4, meta_txt ''/d/a2.txt'' 4])
        \<in> set (by_fp (\<lambda>b. b) fs_pairs (by_size metas_pairs))
   \<and> meta_txt ''/d/a1.txt'' 4 \<in> set [meta_txt ''/d/a1.txt'' 4, meta_txt ''/d/a2.txt'' 4]
   \<and> (4, ''aaaa'') = (m_size (meta_txt ''/d/a1.txt'' 4), fp_or_ERR (\<lambda>b. b) fs_pairs (meta_txt ''/d/a1.txt'' 4))"
proof -
  note t = fingerprint_of_windows_keyed_with_size [of "\<lambda>b. b" fs_pairs "''/d/a1.txt''" metas_pairs]
  have i: "inode fs_pairs ''/d/a1.txt'' = Some (plain_file ''aaaa'')"
    by (simp add: fs_pairs_def plain_fs_def)
  from conjunct1 [OF t] have 1: "sampled_fingerprint (\<lambda>b. b) fs_pairs ''/d/a1.txt'' = Inr ''aaaa''"
    by (simp add: i plain_file_def)
  have 2: "((4, ''aaaa''), [meta_txt ''/d/a1.txt'' 4, meta_txt ''/d/a2.txt'' 4])
        \<in> set (by_fp (\<lambda>b. b) fs_pairs (by_size metas_pairs))"
    unfolding by_size_of_pairs by_fp_of_pairs by simp
  have 3: "meta_txt ''/d/a1.txt'' 4 \<in> set [meta_txt ''/d/a1.txt'' 4, meta_txt ''/d/a2.txt'' 4]"
    by simp
  from conjunct2 [OF t] 2 3
  have "(4, ''aaaa'') = (m_size (meta_txt ''/d/a1.txt'' 4), fp_or_ERR (\<lambda>b. b) fs_pairs (meta_txt ''/d/a1.txt'' 4))"
    by blast
  with 1 2 3 show ?thesis by blast
qed

section \<open>Closure of the report\<close>

text \<open>
  Claim C10: every path of a mismatch record, every member path of a duplicate group and
  the path of every erasable candidate of a report is the path of an entry of the
  \<open>files\<close> list of the same report.
\<close>

theorem report_closure:
  assumes "scan_directory md5 sha256 sc rt fs r = Inr rep"
  shows "mm_path ` set (mismatches rep) \<subseteq> r_path ` set (files rep)
       \<and> set (concat (map d_files (duplicate_groups rep))) \<subseteq> r_path ` set (files rep)
       \<and> c_path ` set (erasable_candidates rep) \<subseteq> r_path ` set (files rep)"
proof -
  from scan_directory_fields [OF assms] obtain metas where
    mm: "mismatches rep = mismatch_reporter sc metas"
    and fl: "files rep = map file_rec metas"
    and dg: "duplicate_groups rep = duplicate_detector md5 sha256 sc fs metas"
    and ec: "erasability_reasoner (map file_rec metas) = Inr (erasable_candidates rep)"
    by blast
  have paths: "r_path ` set (files rep) = m_path ` set metas"
    by (auto simp: fl file_rec_def image_iff)
  have "mm_path ` set (mismatches rep) \<subseteq> m_path ` set metas"
  proof
    fix p assume "p \<in> mm_path ` set (mismatches rep)"
    then obtain rc where "rc \<in> set (mismatch_reporter sc metas)" "p = mm_path rc"
      using mm by auto
    with mismatch_reporter_inv [of rc sc metas] mismatch_of_path show "p \<in> m_path ` set metas"
      by fastforce
  qed
  moreover have "set (concat (map d_files (duplicate_groups rep))) \<subseteq> m_path ` set metas"
  proof
    fix p assume "p \<in> set (concat (map d_files (duplicate_groups rep)))"
    then obtain g where "g \<in> set (duplicate_detector md5 sha256 sc fs metas)" "p \<in> set (d_files g)"
      using dg by auto
    from duplicate_member [OF this] show "p \<in> m_path ` set metas" by auto
  qed
  moreover have "c_path ` set (erasable_candidates rep) \<subseteq> r_path ` set (files rep)"
    using erasability_reasoner_paths [OF ec] fl by auto
  ultimately show ?thesis using paths by simp
qed

theorem report_closure_witness:
  "scan_directory (\<lambda>b. b) (\<lambda>b. b) default_scanner run_a fs_sample ''/d'' = Inr report_sample
   \<and> mm_path ` set (mismatches report_sample) = {''/d/y.bam''}
   \<and> set (concat (map d_files (duplicate_groups report_sample))) = {''/d/copy/s.fastq'', ''/d/s.fastq''}
   \<and> c_path ` set (erasable_candidates report_sample) = {''/d/s.sra''}
   \<and> r_path ` set (files report_sample) = {''/d/s.sra'', ''/d/s.fastq'', ''/d/y.bam'', ''/d/copy/s.fastq''}
   \<and> mm_path ` set (mismatches report_sample) \<subseteq> r_path ` set (files report_sample)
   \<and> set (concat (map d_files (duplicate_groups report_sample))) \<subseteq> r_path ` set (files report_sample)
   \<and> c_path ` set (erasable_candidates report_sample) \<subseteq> r_path ` set (files report_sample)"
proof -
  have "mm_path ` set (mismatches report_sample) = {''/d/y.bam''}"
    and "set (concat (map d_files (duplicate_groups report_sample))) = {''/d/copy/s.fastq'', ''/d/s.fastq''}"
    and "c_path ` set (erasable_candidates report_sample) = {''/d/s.sra''}"
    and "r_path ` set (files report_sample) = {''/d/s.sra'', ''/d/s.fastq'', ''/d/y.bam'', ''/d/copy/s.fastq''}"
    by (simp_all add: report_sample_def metas_sample_def file_rec_def)
  with scan_of_sample report_closure [OF scan_of_sample] show ?thesis by blast
qed

end
